theory Spec2Isabelle
  imports Main "HOL-Library.Word" "HOL-Library.Multiset"
begin

unbundle bit_operations_syntax

section \<open>Common machine types\<close>

text \<open>
  Pointers are addresses; the null pointer is address 0.  \<open>size_t\<close> and \<open>uint64_t\<close>
  counters are 64-bit words and \<open>uint32_t\<close> bitmap words are 32-bit words, so that
  increments and decrements wrap as they do in C.  Array indices and element counts
  are natural numbers: every index the code forms stays far below \<open>2 ^ 64\<close>.
  A fixed-size C array is a function from its indices to its elements.
\<close>

type_synonym ptr = nat
type_synonym size_t = "64 word"
type_synonym uint32_t = "32 word"
type_synonym uint64_t = "64 word"

abbreviation (input) NULL :: ptr where
  "NULL \<equiv> 0"

section \<open>Buffer pool: hev-memory-pool.c\<close>

definition POOL_MAX_BUFFERS :: nat where
  "POOL_MAX_BUFFERS = 2048"

text \<open>\<open>struct _HevMemoryPool\<close>: \<open>buffers\<close> has 2048 entries, \<open>free_bitmap\<close> 64 words.\<close>

record HevMemoryPool =
  buffers :: "nat \<Rightarrow> ptr"
  free_bitmap :: "nat \<Rightarrow> uint32_t"
  buffer_size :: nat
  buffer_count :: nat
  allocated :: size_t
  peak_usage :: size_t

text \<open>
  \<open>__builtin_ffs\<close>: one plus the index of the least significant set bit, and 0 for
  the word 0.
\<close>

definition ffs :: "uint32_t \<Rightarrow> nat" where
  "ffs x = (case List.find (bit x) [0..<32] of None \<Rightarrow> 0 | Some i \<Rightarrow> Suc i)"

text \<open>The number of set bits of one bitmap word, and of the whole 64-word bitmap.\<close>

definition popcount :: "uint32_t \<Rightarrow> nat" where
  "popcount x = length (filter (bit x) [0..<32])"

definition bitmap_popcount :: "HevMemoryPool \<Rightarrow> nat" where
  "bitmap_popcount pool = sum_list (map (\<lambda>i. popcount (free_bitmap pool i)) [0..<64])"

text \<open>
  The first loop of \<open>hev_memory_pool_new\<close>: \<open>buffers[i] = aligned_alloc (...)\<close> for
  \<open>i = 0, ..., n - 1\<close> in this order, giving up at the first null result.  The
  argument \<open>aligned_alloc\<close> is the allocator's answer for the \<open>i\<close>-th buffer.
\<close>

fun alloc_buffers :: "(nat \<Rightarrow> ptr) \<Rightarrow> nat \<Rightarrow> (nat \<Rightarrow> ptr) \<Rightarrow> (nat \<Rightarrow> ptr) option" where
  "alloc_buffers aligned_alloc 0 bufs = Some bufs"
| "alloc_buffers aligned_alloc (Suc n) bufs =
     (case alloc_buffers aligned_alloc n bufs of
        None \<Rightarrow> None
      | Some b \<Rightarrow> if aligned_alloc n = NULL then None else Some (b(n := aligned_alloc n)))"

text \<open>
  The second loop: word \<open>i\<close> of the bitmap is all ones, except that the last word
  keeps only the bits of the slots that exist.
\<close>

definition init_mask :: "nat \<Rightarrow> nat \<Rightarrow> nat \<Rightarrow> uint32_t" where
  "init_mask bcount bitmap_size i =
     (if i = bitmap_size - 1 \<and> bcount - i * 32 < 32
      then push_bit (bcount - i * 32) 1 - 1
      else 0xFFFFFFFF)"

fun init_bitmap :: "nat \<Rightarrow> nat \<Rightarrow> nat \<Rightarrow> (nat \<Rightarrow> uint32_t) \<Rightarrow> (nat \<Rightarrow> uint32_t)" where
  "init_bitmap bcount bitmap_size 0 bm = bm"
| "init_bitmap bcount bitmap_size (Suc n) bm =
     (init_bitmap bcount bitmap_size n bm)(n := init_mask bcount bitmap_size n)"

text \<open>
  \<open>hev_memory_pool_new\<close>.  \<open>pool_mem\<close> tells whether the allocation of the pool
  structure succeeds.  \<open>memset\<close> clears every array entry and both counters.
\<close>

definition hev_memory_pool_new ::
    "bool \<Rightarrow> (nat \<Rightarrow> ptr) \<Rightarrow> nat \<Rightarrow> nat \<Rightarrow> HevMemoryPool option" where
  "hev_memory_pool_new pool_mem aligned_alloc bsize bcount =
     (let bcount' = (if bcount > POOL_MAX_BUFFERS then POOL_MAX_BUFFERS else bcount) in
      if \<not> pool_mem then None
      else case alloc_buffers aligned_alloc bcount' (\<lambda>_. NULL) of
        None \<Rightarrow> None
      | Some bufs \<Rightarrow>
          let bitmap_size = (bcount' + 31) div 32 in
          Some \<lparr> buffers = bufs,
                 free_bitmap = init_bitmap bcount' bitmap_size bitmap_size (\<lambda>_. 0),
                 buffer_size = bsize,
                 buffer_count = bcount',
                 allocated = 0,
                 peak_usage = 0 \<rparr>)"

text \<open>
  \<open>hev_memory_pool_alloc\<close>.  \<open>claim_slot\<close> is the body of the inner \<open>while\<close> loop for
  a word that is not 0: with no other thread writing the word between the load and
  the compare-and-swap, the swap succeeds on the value just loaded.  It clears the
  lowest set bit, counts the allocation and raises the peak.
\<close>

definition claim_slot :: "HevMemoryPool \<Rightarrow> nat \<Rightarrow> ptr \<times> HevMemoryPool" where
  "claim_slot pool i =
     (let bitmap = free_bitmap pool i;
          b = ffs bitmap - 1;
          desired = bitmap AND NOT (push_bit b 1);
          index = i * 32 + b;
          allocated' = allocated pool + 1;
          peak = peak_usage pool
      in (buffers pool index,
          pool \<lparr> free_bitmap := (free_bitmap pool)(i := desired),
                 allocated := allocated',
                 peak_usage := (if allocated' > peak then allocated' else peak) \<rparr>))"

fun alloc_scan :: "HevMemoryPool \<Rightarrow> nat \<Rightarrow> nat \<Rightarrow> ptr \<times> HevMemoryPool" where
  "alloc_scan pool i 0 = (NULL, pool)"
| "alloc_scan pool i (Suc n) =
     (if free_bitmap pool i \<noteq> 0 then claim_slot pool i else alloc_scan pool (Suc i) n)"

definition hev_memory_pool_alloc :: "HevMemoryPool \<Rightarrow> ptr \<times> HevMemoryPool" where
  "hev_memory_pool_alloc pool = alloc_scan pool 0 ((buffer_count pool + 31) div 32)"

text \<open>
  \<open>hev_memory_pool_free\<close>.  \<open>find_buffer\<close> is the linear search for the first slot
  whose buffer is \<open>p\<close>; the bit of the slot found is set with an atomic OR and
  \<open>allocated\<close> is decremented, whatever the bit was before.
\<close>

fun find_buffer :: "HevMemoryPool \<Rightarrow> ptr \<Rightarrow> nat \<Rightarrow> nat \<Rightarrow> nat option" where
  "find_buffer pool p i 0 = None"
| "find_buffer pool p i (Suc n) =
     (if buffers pool i = p then Some i else find_buffer pool p (Suc i) n)"

definition hev_memory_pool_free :: "HevMemoryPool \<Rightarrow> ptr \<Rightarrow> HevMemoryPool" where
  "hev_memory_pool_free pool p =
     (if p = NULL then pool
      else case find_buffer pool p 0 (buffer_count pool) of
        None \<Rightarrow> pool
      | Some index \<Rightarrow>
          let word = index div 32;
              b = index mod 32;
              bmask = push_bit b 1
          in pool \<lparr> free_bitmap := (free_bitmap pool)(word := free_bitmap pool word OR bmask),
                    allocated := allocated pool - 1 \<rparr>)"

text \<open>\<open>hev_memory_pool_get_stats\<close> with both out-pointers given.\<close>

definition hev_memory_pool_get_stats :: "HevMemoryPool \<Rightarrow> size_t \<times> size_t" where
  "hev_memory_pool_get_stats pool = (allocated pool, peak_usage pool)"

text \<open>A run of calls on one pool, with the pointer every \<open>allocate\<close> returned.\<close>

datatype pool_call = Allocate | Free ptr

fun pool_step :: "pool_call \<Rightarrow> HevMemoryPool \<Rightarrow> ptr list \<times> HevMemoryPool" where
  "pool_step Allocate pool = (let (p, pool') = hev_memory_pool_alloc pool in ([p], pool'))"
| "pool_step (Free p) pool = ([], hev_memory_pool_free pool p)"

fun pool_run :: "pool_call list \<Rightarrow> HevMemoryPool \<Rightarrow> ptr list \<times> HevMemoryPool" where
  "pool_run [] pool = ([], pool)"
| "pool_run (c # cs) pool =
     (let (ps, pool') = pool_step c pool;
          (qs, pool'') = pool_run cs pool'
      in (ps @ qs, pool''))"

text \<open>The conservation property of the pool statistics, for a pool of capacity \<open>M\<close>.\<close>

definition conserved :: "nat \<Rightarrow> HevMemoryPool \<Rightarrow> bool" where
  "conserved M pool \<longleftrightarrow>
     bitmap_popcount pool + unat (allocated pool) = M \<and>
     allocated pool \<le> peak_usage pool \<and> unat (peak_usage pool) \<le> M"

text \<open>
  What the constructor establishes and every call keeps: at most 2048 slots, a bitmap
  bit only for a slot that exists, and a buffer for every slot; the buffers are
  distinct when the allocator hands out distinct addresses.
\<close>

definition bits_in_range :: "HevMemoryPool \<Rightarrow> bool" where
  "bits_in_range pool \<longleftrightarrow>
     (\<forall>w b. bit (free_bitmap pool w) b \<longrightarrow> w * 32 + b < buffer_count pool)"

definition pool_wf :: "HevMemoryPool \<Rightarrow> bool" where
  "pool_wf pool \<longleftrightarrow>
     buffer_count pool \<le> POOL_MAX_BUFFERS \<and> bits_in_range pool \<and>
     (\<forall>i<buffer_count pool. buffers pool i \<noteq> NULL)"

definition distinct_buffers :: "HevMemoryPool \<Rightarrow> bool" where
  "distinct_buffers pool \<longleftrightarrow> inj_on (buffers pool) {..<buffer_count pool}"

text \<open>
  A pointer is lent when it is the buffer of a slot whose bit is 0, and foreign when
  it is the buffer of no slot.
\<close>

definition slot_free :: "HevMemoryPool \<Rightarrow> nat \<Rightarrow> bool" where
  "slot_free pool i \<longleftrightarrow> bit (free_bitmap pool (i div 32)) (i mod 32)"

definition lent :: "HevMemoryPool \<Rightarrow> ptr \<Rightarrow> bool" where
  "lent pool p \<longleftrightarrow> (\<exists>i<buffer_count pool. buffers pool i = p \<and> \<not> slot_free pool i)"

definition foreign :: "HevMemoryPool \<Rightarrow> ptr \<Rightarrow> bool" where
  "foreign pool p \<longleftrightarrow> (\<forall>i<buffer_count pool. buffers pool i \<noteq> p)"

text \<open>A run is orderly when every \<open>free\<close> in it gets a lent, a foreign or the null pointer.\<close>

fun orderly :: "pool_call list \<Rightarrow> HevMemoryPool \<Rightarrow> bool" where
  "orderly [] pool = True"
| "orderly (c # cs) pool =
     ((case c of Allocate \<Rightarrow> True | Free p \<Rightarrow> p = NULL \<or> lent pool p \<or> foreign pool p) \<and>
      orderly cs (snd (pool_step c pool)))"

section \<open>SPSC ring: hev-ring-buffer.h and hev-ring-buffer.c\<close>

definition RING_BUFFER_SIZE :: nat where
  "RING_BUFFER_SIZE = 4096"

text \<open>
  \<open>struct _HevRingBuffer\<close>.  The indices are \<open>size_t\<close> values that the code always
  masks with \<open>mask = 4095\<close>; \<open>head + 1\<close> is at most 4096 and cannot wrap.
\<close>

record HevRingBuffer =
  head :: nat
  cached_tail :: nat
  tail :: nat
  cached_head :: nat
  buffer :: "nat \<Rightarrow> ptr"
  rb_mask :: nat

text \<open>\<open>hev_ring_buffer_new\<close>; \<open>mem\<close> tells whether \<open>aligned_alloc\<close> succeeds.\<close>

definition fresh_ring :: HevRingBuffer where
  "fresh_ring = \<lparr> head = 0, cached_tail = 0, tail = 0, cached_head = 0,
                  buffer = (\<lambda>_. NULL), rb_mask = RING_BUFFER_SIZE - 1 \<rparr>"

definition hev_ring_buffer_new :: "bool \<Rightarrow> HevRingBuffer option" where
  "hev_ring_buffer_new mem = (if \<not> mem then None else Some fresh_ring)"

text \<open>\<open>hev_ring_buffer_push\<close>, called alone: 0 on success, -1 when the ring is full.\<close>

definition hev_ring_buffer_push :: "HevRingBuffer \<Rightarrow> ptr \<Rightarrow> int \<times> HevRingBuffer" where
  "hev_ring_buffer_push rb d =
     (let h = head rb;
          nxt = (h + 1) AND rb_mask rb
      in if nxt = cached_tail rb
         then (let rb1 = rb \<lparr> cached_tail := tail rb \<rparr>
               in if nxt = cached_tail rb1 then (- 1, rb1)
                  else (0, rb1 \<lparr> buffer := (buffer rb1)(h := d), head := nxt \<rparr>))
         else (0, rb \<lparr> buffer := (buffer rb)(h := d), head := nxt \<rparr>))"

text \<open>
  \<open>hev_ring_buffer_pop\<close>, called alone.  It returns \<open>NULL\<close> for an empty ring and the
  stored pointer otherwise, so a caller cannot tell an empty ring from a stored
  \<open>NULL\<close>.
\<close>

definition hev_ring_buffer_pop :: "HevRingBuffer \<Rightarrow> ptr \<times> HevRingBuffer" where
  "hev_ring_buffer_pop rb =
     (let t = tail rb
      in if t = cached_head rb
         then (let rb1 = rb \<lparr> cached_head := head rb \<rparr>
               in if t = cached_head rb1 then (NULL, rb1)
                  else (buffer rb1 t, rb1 \<lparr> tail := (t + 1) AND rb_mask rb1 \<rparr>))
         else (buffer rb t, rb \<lparr> tail := (t + 1) AND rb_mask rb \<rparr>))"

definition hev_ring_buffer_size :: "HevRingBuffer \<Rightarrow> nat" where
  "hev_ring_buffer_size rb =
     nat ((int (head rb) - int (tail rb)) mod 2 ^ 64) AND rb_mask rb"

text \<open>The condition that the specification calls full.\<close>

definition ring_full :: "HevRingBuffer \<Rightarrow> bool" where
  "ring_full rb \<longleftrightarrow> (head rb + 1) AND rb_mask rb = tail rb"

subsection \<open>One producer and one consumer, interleaved\<close>

text \<open>
  The producer thread and the consumer thread work on the ring at the same time.  A
  step of a thread is one access to a field that the other thread reads or writes:
  the load of the other side's index into the cached copy, the store into or the load
  from \<open>buffer\<close>, and the store that publishes the thread's own index.  The load of the
  thread's own index and the comparison with its cached copy are private and belong
  to the call step.  The accesses are atomic with release and acquire order in the
  code; here they take effect in the order of the steps.

  The program counter of a thread holds the locals of the call it is in: the pointer
  \<open>data\<close> and the index \<open>head\<close> for \<open>push\<close>, the index \<open>tail\<close> and the pointer read for
  \<open>pop\<close>.
\<close>

datatype producer_pc = P_Idle | P_Reload ptr nat | P_Store ptr nat | P_Publish ptr nat

datatype consumer_pc = C_Idle | C_Reload nat | C_Load nat | C_Publish nat ptr

text \<open>
  Besides the ring and the two program counters the state keeps two logs.
  \<open>rs_pushes\<close> has an entry for every \<open>push\<close> at the step that decides its result: the
  pointer supplied, the value the call returns, and whether
  \<open>((head + 1) & mask) == tail\<close> held in the ring at that step.  \<open>rs_pops\<close> has an entry
  for every \<open>pop\<close> that has returned: the pointer returned, and whether the call took
  a slot of the ring (it returned \<open>NULL\<close> for an empty ring otherwise).
\<close>

record ring_sys =
  rs_rb :: HevRingBuffer
  rs_producer :: producer_pc
  rs_consumer :: consumer_pc
  rs_pushes :: "(ptr \<times> int \<times> bool) list"
  rs_pops :: "(ptr \<times> bool) list"

definition ring_started :: ring_sys where
  "ring_started = \<lparr> rs_rb = fresh_ring, rs_producer = P_Idle, rs_consumer = C_Idle,
                    rs_pushes = [], rs_pops = [] \<rparr>"

text \<open>
  The producer calls \<open>push\<close>: it loads \<open>head\<close> and compares \<open>next\<close> with \<open>cached_tail\<close>.
  A call is possible only when the producer is in no other call.
\<close>

definition call_push :: "ptr \<Rightarrow> ring_sys \<Rightarrow> ring_sys option" where
  "call_push d s =
     (case rs_producer s of
        P_Idle \<Rightarrow>
          (let rb = rs_rb s;
               h = head rb;
               nxt = (h + 1) AND rb_mask rb
           in if nxt = cached_tail rb
              then Some (s \<lparr> rs_producer := P_Reload d h \<rparr>)
              else Some (s \<lparr> rs_producer := P_Store d h,
                             rs_pushes := rs_pushes s @ [(d, 0, ring_full rb)] \<rparr>))
      | _ \<Rightarrow> None)"

text \<open>
  The next step of the producer inside \<open>push\<close>: the reload of \<open>cached_tail\<close> from
  \<open>tail\<close> with the second comparison, the store into \<open>buffer[head]\<close>, the store of
  \<open>next\<close> into \<open>head\<close>.  An idle producer has nothing to do.
\<close>

definition producer_step :: "ring_sys \<Rightarrow> ring_sys option" where
  "producer_step s =
     (let rb = rs_rb s
      in case rs_producer s of
        P_Idle \<Rightarrow> Some s
      | P_Reload d h \<Rightarrow>
          (let nxt = (h + 1) AND rb_mask rb;
               rb1 = rb \<lparr> cached_tail := tail rb \<rparr>
           in if nxt = cached_tail rb1
              then Some (s \<lparr> rs_rb := rb1, rs_producer := P_Idle,
                             rs_pushes := rs_pushes s @ [(d, - 1, ring_full rb)] \<rparr>)
              else Some (s \<lparr> rs_rb := rb1, rs_producer := P_Store d h,
                             rs_pushes := rs_pushes s @ [(d, 0, ring_full rb)] \<rparr>))
      | P_Store d h \<Rightarrow>
          Some (s \<lparr> rs_rb := rb \<lparr> buffer := (buffer rb)(h := d) \<rparr>,
                    rs_producer := P_Publish d h \<rparr>)
      | P_Publish d h \<Rightarrow>
          Some (s \<lparr> rs_rb := rb \<lparr> head := (h + 1) AND rb_mask rb \<rparr>,
                    rs_producer := P_Idle \<rparr>))"

text \<open>The consumer calls \<open>pop\<close>: it loads \<open>tail\<close> and compares it with \<open>cached_head\<close>.\<close>

definition call_pop :: "ring_sys \<Rightarrow> ring_sys option" where
  "call_pop s =
     (case rs_consumer s of
        C_Idle \<Rightarrow>
          (let rb = rs_rb s;
               t = tail rb
           in if t = cached_head rb
              then Some (s \<lparr> rs_consumer := C_Reload t \<rparr>)
              else Some (s \<lparr> rs_consumer := C_Load t \<rparr>))
      | _ \<Rightarrow> None)"

text \<open>
  The next step of the consumer inside \<open>pop\<close>: the reload of \<open>cached_head\<close> from
  \<open>head\<close> with the second comparison, the load of \<open>buffer[tail]\<close>, the store of
  \<open>next\<close> into \<open>tail\<close>, after which the call returns the pointer it loaded.
\<close>

definition consumer_step :: "ring_sys \<Rightarrow> ring_sys option" where
  "consumer_step s =
     (let rb = rs_rb s
      in case rs_consumer s of
        C_Idle \<Rightarrow> Some s
      | C_Reload t \<Rightarrow>
          (let rb1 = rb \<lparr> cached_head := head rb \<rparr>
           in if t = cached_head rb1
              then Some (s \<lparr> rs_rb := rb1, rs_consumer := C_Idle,
                             rs_pops := rs_pops s @ [(NULL, False)] \<rparr>)
              else Some (s \<lparr> rs_rb := rb1, rs_consumer := C_Load t \<rparr>))
      | C_Load t \<Rightarrow> Some (s \<lparr> rs_consumer := C_Publish t (buffer rb t) \<rparr>)
      | C_Publish t d \<Rightarrow>
          Some (s \<lparr> rs_rb := rb \<lparr> tail := (t + 1) AND rb_mask rb \<rparr>,
                    rs_consumer := C_Idle, rs_pops := rs_pops s @ [(d, True)] \<rparr>))"

text \<open>
  An execution is a schedule: the list of the steps in the order in which they take
  effect.  \<open>ring_exec\<close> is \<open>None\<close> when the schedule starts a call in a thread that
  is still inside a call.
\<close>

datatype ring_action = Call_Push ptr | Producer_Step | Call_Pop | Consumer_Step

fun ring_step :: "ring_action \<Rightarrow> ring_sys \<Rightarrow> ring_sys option" where
  "ring_step (Call_Push d) s = call_push d s"
| "ring_step Producer_Step s = producer_step s"
| "ring_step Call_Pop s = call_pop s"
| "ring_step Consumer_Step s = consumer_step s"

fun ring_exec :: "ring_action list \<Rightarrow> ring_sys \<Rightarrow> ring_sys option" where
  "ring_exec [] s = Some s"
| "ring_exec (a # as) s = (case ring_step a s of None \<Rightarrow> None | Some s' \<Rightarrow> ring_exec as s')"

text \<open>A call that runs from its first step to its return with no step of the other thread between.\<close>

definition push_call :: "ptr \<Rightarrow> ring_action list" where
  "push_call d = [Call_Push d, Producer_Step, Producer_Step, Producer_Step]"

definition pop_call :: "ring_action list" where
  "pop_call = [Call_Pop, Consumer_Step, Consumer_Step, Consumer_Step]"

text \<open>
  What the logs say: the pointers supplied to \<open>push\<close>, the pointers \<open>push\<close> accepted,
  the pointers returned by \<open>pop\<close> (a return of \<open>NULL\<close> returns no pointer), and the
  number of slots the consumer has taken.
\<close>

definition supplied :: "ring_sys \<Rightarrow> ptr list" where
  "supplied s = map fst (rs_pushes s)"

definition accepted :: "ring_sys \<Rightarrow> ptr list" where
  "accepted s = map fst (filter (\<lambda>(d, r, f). r = 0) (rs_pushes s))"

definition returned :: "ring_sys \<Rightarrow> ptr list" where
  "returned s = filter (\<lambda>p. p \<noteq> NULL) (map fst (rs_pops s))"

definition taken :: "ring_sys \<Rightarrow> nat" where
  "taken s = length (filter snd (rs_pops s))"

text \<open>
  The ring seen through counters that never wrap: \<open>pushed\<close> lists every pointer
  whose slot the producer has published, \<open>T\<close> counts the slots the consumer has
  released, and \<open>CT\<close>, \<open>CH\<close> are the values of these counts when the producer and the
  consumer last refreshed their cached copy.
\<close>

definition ring_inv :: "HevRingBuffer \<Rightarrow> ptr list \<Rightarrow> nat \<Rightarrow> nat \<Rightarrow> nat \<Rightarrow> bool" where
  "ring_inv rb pushed T CT CH \<longleftrightarrow>
     rb_mask rb = 4095 \<and>
     head rb = length pushed mod 4096 \<and> tail rb = T mod 4096 \<and>
     cached_tail rb = CT mod 4096 \<and> cached_head rb = CH mod 4096 \<and>
     CT \<le> T \<and> T \<le> CH \<and> CH \<le> length pushed \<and> length pushed - CT < 4096 \<and>
     (\<forall>i. T \<le> i \<and> i < length pushed \<longrightarrow> buffer rb (i mod 4096) = pushed ! i)"

text \<open>
  The number of published slots: a pointer that \<open>push\<close> has accepted is published by
  the last step of the call.
\<close>

fun in_flight :: "producer_pc \<Rightarrow> nat" where
  "in_flight (P_Store d h) = 1"
| "in_flight (P_Publish d h) = 1"
| "in_flight (P_Reload d h) = 0"
| "in_flight P_Idle = 0"

definition published :: "ring_sys \<Rightarrow> nat" where
  "published s = length (accepted s) - in_flight (rs_producer s)"

text \<open>
  The invariant of the interleaved ring.  What a thread inside a call knows: the
  producer past its test has a free slot at \<open>head\<close>, the consumer past its test has a
  published slot at \<open>tail\<close>.
\<close>

fun producer_ok :: "producer_pc \<Rightarrow> HevRingBuffer \<Rightarrow> ptr list \<Rightarrow> nat \<Rightarrow> bool" where
  "producer_ok P_Idle rb acc gap = True"
| "producer_ok (P_Reload d h) rb acc gap = (h = head rb)"
| "producer_ok (P_Store d h) rb acc gap =
     (h = head rb \<and> acc \<noteq> [] \<and> last acc = d \<and> gap < 4095)"
| "producer_ok (P_Publish d h) rb acc gap =
     (h = head rb \<and> acc \<noteq> [] \<and> last acc = d \<and> gap < 4095 \<and> buffer rb h = d)"

definition producer_inv :: "ring_sys \<Rightarrow> nat \<Rightarrow> bool" where
  "producer_inv s CT =
     producer_ok (rs_producer s) (rs_rb s) (accepted s) (published s - CT)"

fun consumer_ok :: "consumer_pc \<Rightarrow> HevRingBuffer \<Rightarrow> ptr list \<Rightarrow> nat \<Rightarrow> nat \<Rightarrow> bool" where
  "consumer_ok C_Idle rb acc T CH = True"
| "consumer_ok (C_Reload t) rb acc T CH = (t = tail rb)"
| "consumer_ok (C_Load t) rb acc T CH = (t = tail rb \<and> T < CH)"
| "consumer_ok (C_Publish t d) rb acc T CH = (t = tail rb \<and> T < CH \<and> d = acc ! T)"

definition consumer_inv :: "ring_sys \<Rightarrow> nat \<Rightarrow> bool" where
  "consumer_inv s CH = consumer_ok (rs_consumer s) (rs_rb s) (accepted s) (taken s) CH"

definition log_inv :: "ring_sys \<Rightarrow> bool" where
  "log_inv s \<longleftrightarrow>
     list_all (\<lambda>(d, r, f). (r = 0 \<or> r = - 1) \<and> (r = - 1) = f) (rs_pushes s) \<and>
     list_all (\<lambda>(p, took). took \<or> p = NULL) (rs_pops s) \<and>
     map fst (filter snd (rs_pops s)) = take (taken s) (accepted s)"

definition ring_sys_inv :: "ring_sys \<Rightarrow> nat \<Rightarrow> nat \<Rightarrow> bool" where
  "ring_sys_inv s CT CH \<longleftrightarrow>
     ring_inv (rs_rb s) (take (published s) (accepted s)) (taken s) CT CH \<and>
     published s \<le> length (accepted s) \<and>
     producer_inv s CT \<and> consumer_inv s CH \<and> log_inv s"

section \<open>Connection pool: hev-connection-pool.c\<close>

definition CONN_POOL_SIZE :: nat where
  "CONN_POOL_SIZE = 128"

definition CONN_IDLE_TIMEOUT :: int where
  "CONN_IDLE_TIMEOUT = 60"

text \<open>
  \<open>struct _HevConnection\<close> and \<open>struct _HevConnectionPool\<close>.  Times are \<open>time_t\<close>
  seconds; the field \<open>size\<close> of the pool is \<open>pool_size\<close> here.
\<close>

record HevConnection =
  fd :: int
  last_used :: int
  created :: int
  in_use :: bool
  use_count :: uint32_t

record HevConnectionPool =
  conns :: "nat \<Rightarrow> HevConnection"
  pool_size :: nat
  total_requests :: uint64_t
  cache_hits :: uint64_t
  cache_misses :: uint64_t
  evictions :: uint64_t

text \<open>
  \<open>hev_connection_pool_new\<close>: \<open>calloc\<close> clears the structure, then the first \<open>size\<close>
  slots are marked empty.  \<open>mem\<close> tells whether \<open>calloc\<close> succeeds.
\<close>

definition hev_connection_pool_new :: "bool \<Rightarrow> nat \<Rightarrow> HevConnectionPool option" where
  "hev_connection_pool_new mem sz =
     (let sz' = (if sz > CONN_POOL_SIZE then CONN_POOL_SIZE else sz) in
      if \<not> mem then None
      else Some \<lparr> conns = (\<lambda>i. \<lparr> fd = (if i < sz' then - 1 else 0), last_used = 0, created = 0,
                                   in_use = False, use_count = 0 \<rparr>),
                   pool_size = sz',
                   total_requests = 0, cache_hits = 0, cache_misses = 0, evictions = 0 \<rparr>)"

text \<open>
  What the operating system answers during one call of \<open>hev_connection_pool_get\<close>:
  the clock, the result of the one-byte non-blocking \<open>recv\<close> peek on a descriptor, the
  result of \<open>socket\<close> (negative on failure) and whether \<open>connect\<close> returned 0 or
  failed with \<open>EINPROGRESS\<close>.  The peek returns a positive count (\<open>Recv_Bytes\<close>), 0
  (\<open>Recv_Closed\<close>), or a negative value with \<open>errno\<close> \<open>EAGAIN\<close> or \<open>EWOULDBLOCK\<close>
  (\<open>Recv_Again\<close>) or with another \<open>errno\<close> (\<open>Recv_Error\<close>).
\<close>

datatype recv_result = Recv_Bytes | Recv_Closed | Recv_Again | Recv_Error

record get_env =
  now :: int
  recv_peek :: "int \<Rightarrow> recv_result"
  socket_fd :: int
  connect_ok :: bool

definition dead :: "recv_result \<Rightarrow> bool" where
  "dead r \<longleftrightarrow> r = Recv_Closed \<or> r = Recv_Error"

text \<open>
  The scan loop of \<open>hev_connection_pool_get\<close> from slot \<open>i\<close> over \<open>n\<close> slots: a dead
  candidate is closed, emptied and counted as an eviction and the scan goes on; the
  first live candidate is taken and counted as a hit.  The result \<open>- 1\<close> is the
  initial value of \<open>fd\<close> when no slot was taken.
\<close>

fun get_scan :: "get_env \<Rightarrow> nat \<Rightarrow> nat \<Rightarrow> HevConnectionPool \<Rightarrow> int \<times> HevConnectionPool" where
  "get_scan e i 0 pool = (- 1, pool)"
| "get_scan e i (Suc n) pool =
     (let c = conns pool i in
      if fd c \<ge> 0 \<and> \<not> in_use c \<and> now e - last_used c < CONN_IDLE_TIMEOUT
      then (if dead (recv_peek e (fd c))
            then get_scan e (Suc i) n
                   (pool \<lparr> conns := (conns pool)(i := c \<lparr> fd := - 1 \<rparr>),
                           evictions := evictions pool + 1 \<rparr>)
            else (fd c,
                  pool \<lparr> conns := (conns pool)
                            (i := c \<lparr> in_use := True, last_used := now e,
                                      use_count := use_count c + 1 \<rparr>),
                          cache_hits := cache_hits pool + 1 \<rparr>))
      else get_scan e (Suc i) n pool)"

text \<open>
  \<open>hev_connection_pool_get\<close>.  The destination \<open>(server, port)\<close> only reaches
  \<open>connect\<close>, whose outcome is part of \<open>e\<close>.
\<close>

definition hev_connection_pool_get ::
    "get_env \<Rightarrow> HevConnectionPool \<Rightarrow> int \<times> HevConnectionPool" where
  "hev_connection_pool_get e pool =
     (let (f, pool1) = get_scan e 0 (pool_size pool)
                         (pool \<lparr> total_requests := total_requests pool + 1 \<rparr>)
      in if f < 0
         then (if socket_fd e < 0 then (- 1, pool1)
               else if \<not> connect_ok e then (- 1, pool1)
               else (socket_fd e, pool1 \<lparr> cache_misses := cache_misses pool1 + 1 \<rparr>))
         else (f, pool1))"

text \<open>The two searches of \<open>hev_connection_pool_release\<close>, each for the first match.\<close>

fun find_fd :: "HevConnectionPool \<Rightarrow> int \<Rightarrow> nat \<Rightarrow> nat \<Rightarrow> nat option" where
  "find_fd pool f i 0 = None"
| "find_fd pool f i (Suc n) =
     (if fd (conns pool i) = f then Some i else find_fd pool f (Suc i) n)"

fun find_empty :: "HevConnectionPool \<Rightarrow> nat \<Rightarrow> nat \<Rightarrow> nat option" where
  "find_empty pool i 0 = None"
| "find_empty pool i (Suc n) =
     (if fd (conns pool i) < 0 then Some i else find_empty pool (Suc i) n)"

text \<open>\<open>hev_connection_pool_release\<close> at time \<open>t\<close>.\<close>

definition hev_connection_pool_release ::
    "int \<Rightarrow> HevConnectionPool \<Rightarrow> int \<Rightarrow> HevConnectionPool" where
  "hev_connection_pool_release t pool f =
     (if f < 0 then pool
      else case find_fd pool f 0 (pool_size pool) of
        Some i \<Rightarrow>
          pool \<lparr> conns := (conns pool)(i := (conns pool i) \<lparr> in_use := False, last_used := t \<rparr>) \<rparr>
      | None \<Rightarrow>
          (case find_empty pool 0 (pool_size pool) of
             Some i \<Rightarrow>
               pool \<lparr> conns := (conns pool)
                         (i := (conns pool i) \<lparr> fd := f, in_use := False, last_used := t,
                                                created := t, use_count := 1 \<rparr>) \<rparr>
           | None \<Rightarrow> pool \<lparr> evictions := evictions pool + 1 \<rparr>))"

text \<open>\<open>hev_connection_pool_remove\<close>.\<close>

definition hev_connection_pool_remove :: "HevConnectionPool \<Rightarrow> int \<Rightarrow> HevConnectionPool" where
  "hev_connection_pool_remove pool f =
     (if f < 0 then pool
      else case find_fd pool f 0 (pool_size pool) of
        Some i \<Rightarrow>
          pool \<lparr> conns := (conns pool)(i := (conns pool i) \<lparr> fd := - 1, in_use := False \<rparr>),
                 evictions := evictions pool + 1 \<rparr>
      | None \<Rightarrow> pool)"

text \<open>\<open>hev_connection_pool_cleanup\<close> at time \<open>t\<close>, from slot \<open>i\<close> over \<open>n\<close> slots.\<close>

fun cleanup_scan :: "int \<Rightarrow> nat \<Rightarrow> nat \<Rightarrow> HevConnectionPool \<Rightarrow> HevConnectionPool" where
  "cleanup_scan t i 0 pool = pool"
| "cleanup_scan t i (Suc n) pool =
     (let c = conns pool i in
      if fd c \<ge> 0 \<and> \<not> in_use c \<and> t - last_used c \<ge> CONN_IDLE_TIMEOUT
      then cleanup_scan t (Suc i) n
             (pool \<lparr> conns := (conns pool)(i := c \<lparr> fd := - 1 \<rparr>),
                     evictions := evictions pool + 1 \<rparr>)
      else cleanup_scan t (Suc i) n pool)"

definition hev_connection_pool_cleanup :: "int \<Rightarrow> HevConnectionPool \<Rightarrow> HevConnectionPool" where
  "hev_connection_pool_cleanup t pool = cleanup_scan t 0 (pool_size pool) pool"

text \<open>A sequence of \<open>get\<close> calls, each with its own environment, and what each returned.\<close>

fun get_run :: "get_env list \<Rightarrow> HevConnectionPool \<Rightarrow> int list \<times> HevConnectionPool" where
  "get_run [] pool = ([], pool)"
| "get_run (e # es) pool =
     (let (r, pool') = hev_connection_pool_get e pool;
          (rs, pool'') = get_run es pool'
      in (r # rs, pool''))"

text \<open>Some slot of the pool holds the descriptor \<open>f\<close>.\<close>

definition holds :: "HevConnectionPool \<Rightarrow> int \<Rightarrow> bool" where
  "holds pool f \<longleftrightarrow> (\<exists>i<pool_size pool. fd (conns pool i) = f)"

text \<open>
  \<open>get\<close> takes the miss path and returns a new descriptor: the scan takes no slot,
  \<open>socket\<close> succeeds and \<open>connect\<close> succeeds or is in progress.
\<close>

definition miss_path :: "get_env \<Rightarrow> HevConnectionPool \<Rightarrow> bool" where
  "miss_path e pool \<longleftrightarrow>
     fst (get_scan e 0 (pool_size pool) (pool \<lparr> total_requests := total_requests pool + 1 \<rparr>)) < 0 \<and>
     0 \<le> socket_fd e \<and> connect_ok e"

section \<open>Worker pool: hev-thread-pool.c\<close>

definition MAX_QUEUE_SIZE :: int where
  "MAX_QUEUE_SIZE = 10000"

definition MIN_THREADS :: int where
  "MIN_THREADS = 2"

definition MAX_THREADS :: int where
  "MAX_THREADS = 64"

text \<open>
  \<open>get_cpu_count\<close>.  The argument is the number of processors the platform reports
  (\<open>get_nprocs ()\<close> on Linux); the function clamps it to \<open>[MIN_THREADS, MAX_THREADS]\<close>.
\<close>

definition get_cpu_count :: "int \<Rightarrow> int" where
  "get_cpu_count nprocs =
     (let cpu_count = nprocs;
          cpu_count = (if cpu_count < MIN_THREADS then MIN_THREADS else cpu_count);
          cpu_count = (if cpu_count > MAX_THREADS then MAX_THREADS else cpu_count)
      in cpu_count)"

text \<open>
  \<open>struct _HevThreadPool\<close>: \<open>threads\<close> lists the workers created, \<open>queue\<close> the
  contexts of the queued work items, head first.
\<close>

record HevThreadPool =
  threads :: "nat list"
  num_threads :: int
  shutdown :: int
  queue :: "ptr list"
  queue_size :: int
  active_threads :: int

text \<open>
  What the system answers during \<open>hev_thread_pool_new\<close>: whether the two \<open>calloc\<close>
  calls succeed, the processor count, and whether the \<open>i\<close>-th \<open>pthread_create\<close>
  succeeds.
\<close>

record thread_env =
  pool_calloc :: bool
  threads_calloc :: bool
  nprocs :: int
  create_ok :: "nat \<Rightarrow> bool"

definition hev_thread_pool_new :: "thread_env \<Rightarrow> int \<Rightarrow> HevThreadPool option" where
  "hev_thread_pool_new e n =
     (if \<not> pool_calloc e then None
      else let n' = (if n \<le> 0
                     then (let m = get_cpu_count (nprocs e) * 2
                           in if m > MAX_THREADS then MAX_THREADS else m)
                     else n)
           in if \<not> threads_calloc e then None
              else if list_all (create_ok e) [0..<nat n']
                   then Some \<lparr> threads = [0..<nat n'], num_threads = n', shutdown = 0,
                                queue = [], queue_size = 0, active_threads = 0 \<rparr>
                   else None)"

definition hev_thread_pool_get_thread_count :: "HevThreadPool \<Rightarrow> int" where
  "hev_thread_pool_get_thread_count pool = num_threads pool"

text \<open>The default the specification states: \<open>clamp (2 * cores, 2, 64)\<close>.\<close>

definition clamp :: "int \<Rightarrow> int \<Rightarrow> int \<Rightarrow> int" where
  "clamp x lo hi = (if x < lo then lo else if x > hi then hi else x)"

definition spec_default_threads :: "int \<Rightarrow> int" where
  "spec_default_threads cores = clamp (2 * cores) 2 64"

section \<open>Session registry: hev-socks5-tunnel.c\<close>

text \<open>
  The doubly linked list of session nodes, oldest first, and \<open>session_count\<close>.
\<close>

record registry =
  session_list :: "ptr list"
  session_count :: int

text \<open>
  \<open>insert_session\<close>.  \<open>node_mem\<close> tells whether \<open>malloc\<close> of the node succeeds and
  \<open>max_sessions\<close> is \<open>hev_config_get_misc_max_session_count ()\<close>.  The second result
  tells whether the warning "session limit reached, terminating oldest session" was
  logged; the branch does nothing else.
\<close>

definition insert_session :: "bool \<Rightarrow> int \<Rightarrow> ptr \<Rightarrow> registry \<Rightarrow> registry \<times> bool" where
  "insert_session node_mem max_sessions session reg =
     (if \<not> node_mem then (reg, False)
      else let reg' = \<lparr> session_list = session_list reg @ [session],
                          session_count = session_count reg + 1 \<rparr>
           in (reg',
               max_sessions > 0 \<and> session_count reg' > max_sessions \<and>
               session_list reg' \<noteq> [] \<and> hd (session_list reg') \<noteq> NULL))"

text \<open>\<open>remove_session\<close>: the first node that holds \<open>session\<close> is unlinked.\<close>

fun unlink_session :: "ptr \<Rightarrow> ptr list \<Rightarrow> ptr list \<times> bool" where
  "unlink_session session [] = ([], False)"
| "unlink_session session (x # xs) =
     (if x = session then (xs, True)
      else (let (ys, found) = unlink_session session xs in (x # ys, found)))"

definition remove_session :: "ptr \<Rightarrow> registry \<Rightarrow> registry" where
  "remove_session session reg =
     (let (xs, found) = unlink_session session (session_list reg)
      in if found then \<lparr> session_list = xs, session_count = session_count reg - 1 \<rparr> else reg)"

text \<open>A history of the registry: sessions come and go.\<close>

datatype registry_call = Insert ptr | Remove ptr

fun registry_run :: "int \<Rightarrow> registry_call list \<Rightarrow> registry \<Rightarrow> registry" where
  "registry_run max_sessions [] reg = reg"
| "registry_run max_sessions (Insert s # cs) reg =
     registry_run max_sessions cs (fst (insert_session True max_sessions s reg))"
| "registry_run max_sessions (Remove s # cs) reg =
     registry_run max_sessions cs (remove_session s reg)"

definition empty_registry :: registry where
  "empty_registry = \<lparr> session_list = [], session_count = 0 \<rparr>"

section \<open>TUN I/O engine: hev-tunnel-io.c\<close>

definition WRITE_QUEUE_SIZE :: int where
  "WRITE_QUEUE_SIZE = 4096"

definition WRITE_BATCH_SIZE :: nat where
  "WRITE_BATCH_SIZE = 16"

text \<open>A packet buffer of the stack: its first segment's length and its total length.\<close>

record pbuf =
  pb_id :: nat
  pb_len :: nat
  pb_tot_len :: nat

text \<open>
  A thread of the engine is seen as the point of its code where it stands.  A
  reader is not created yet, at the \<open>malloc\<close> of its scratch buffer, at the test of
  its loop, inside the body of its loop (at \<open>read\<close>), or returned.  A writer is not
  created yet, at the test of its outer loop, at the critical section under
  \<open>write_mutex\<close>, in its write loop with the rest of the batch it has taken, or
  returned.
\<close>

datatype reader_pc = R_None | R_Start | R_Test | R_Read | R_Returned

datatype writer_pc = W_None | W_Test | W_Locked | W_Batch "pbuf list" | W_Returned

text \<open>
  \<open>struct _HevTunnelIO\<close>: \<open>reader_threads\<close> and \<open>writer_threads\<close> are the two arrays
  of threads, \<open>write_queue\<close> is the linked list from \<open>write_queue_head\<close> to
  \<open>write_queue_tail\<close>, \<open>read_callback\<close> tells whether a callback is registered.
\<close>

record HevTunnelIO =
  tun_fd :: int
  mtu :: nat
  running :: int
  reader_threads :: "reader_pc list"
  num_readers :: int
  writer_threads :: "writer_pc list"
  num_writers :: int
  write_queue :: "pbuf list"
  write_queue_size :: int
  read_callback :: bool
  tx_packets :: size_t
  tx_bytes :: size_t
  rx_packets :: size_t
  rx_bytes :: size_t

text \<open>
  \<open>hev_tunnel_io_new\<close>; \<open>mem\<close> tells whether the allocations succeed and \<open>ncpus\<close> is
  \<open>sysconf (_SC_NPROCESSORS_ONLN)\<close>.
\<close>

definition hev_tunnel_io_new :: "bool \<Rightarrow> int \<Rightarrow> int \<Rightarrow> nat \<Rightarrow> HevTunnelIO option" where
  "hev_tunnel_io_new mem ncpus tfd m =
     (if \<not> mem then None
      else let num_cpus = (if ncpus < 2 then 2 else ncpus);
               k = (if num_cpus \<ge> 4 then 2 else 1)
           in Some \<lparr> tun_fd = tfd, mtu = m, running = 0,
                       reader_threads = replicate (nat k) R_None, num_readers = k,
                       writer_threads = replicate (nat k) W_None, num_writers = k,
                       write_queue = [], write_queue_size = 0, read_callback = False,
                       tx_packets = 0, tx_bytes = 0, rx_packets = 0, rx_bytes = 0 \<rparr>)"

definition hev_tunnel_io_set_read_callback :: "bool \<Rightarrow> HevTunnelIO \<Rightarrow> HevTunnelIO" where
  "hev_tunnel_io_set_read_callback cb io = io \<lparr> read_callback := cb \<rparr>"

text \<open>
  \<open>hev_tunnel_io_start\<close>; \<open>threads_created\<close> tells whether \<open>pthread_create\<close>
  succeeds.  When it does, every reader stands at the start of \<open>reader_thread\<close> and
  every writer at the test of its loop; when it fails, the first call fails and no
  thread exists.
\<close>

definition hev_tunnel_io_start :: "bool \<Rightarrow> HevTunnelIO \<Rightarrow> int \<times> HevTunnelIO" where
  "hev_tunnel_io_start threads_created io =
     (if running io \<noteq> 0 then (- 1, io)
      else if threads_created
           then (0, io \<lparr> running := 1,
                          reader_threads := replicate (nat (num_readers io)) R_Start,
                          writer_threads := replicate (nat (num_writers io)) W_Test \<rparr>)
      else (- 1, io \<lparr> running := 0 \<rparr>))"

text \<open>
  \<open>hev_tunnel_io_write\<close>: the packet is appended unless the queue holds
  \<open>WRITE_QUEUE_SIZE\<close> packets; \<open>node_mem\<close> tells whether \<open>malloc\<close> of the node succeeds.
  The test and the append are done under \<open>write_mutex\<close>.
\<close>

definition hev_tunnel_io_write :: "bool \<Rightarrow> HevTunnelIO \<Rightarrow> pbuf \<Rightarrow> int \<times> HevTunnelIO" where
  "hev_tunnel_io_write node_mem io p =
     (if \<not> node_mem then (- 1, io)
      else if write_queue_size io \<ge> WRITE_QUEUE_SIZE then (- 1, io)
      else (0, io \<lparr> write_queue := write_queue io @ [p],
                     write_queue_size := write_queue_size io + 1 \<rparr>))"

text \<open>
  One step of \<open>reader_thread\<close> number \<open>i\<close>.  At its start the thread allocates its
  scratch buffer and returns at once when \<open>malloc\<close> fails (\<open>mem\<close> is the answer).  At
  the test \<open>while (io->running)\<close> it enters the body or leaves the loop and returns.
  In the body it calls \<open>read\<close>, whose result is \<open>r\<close>, and \<open>pbuf_alloc\<close>, whose
  success is \<open>mem\<close>: a hard error ends the loop, a packet that got its buffer is
  counted and goes to the read callback, and in every other case the thread goes
  back to the test.  A thread that does not exist or has returned takes no step.
\<close>

datatype read_result = Read_Bytes nat | Read_Zero | Read_Again | Read_Intr | Read_Error

definition reader_step :: "read_result \<Rightarrow> bool \<Rightarrow> nat \<Rightarrow> HevTunnelIO \<Rightarrow> HevTunnelIO option" where
  "reader_step r mem i io =
     (if i \<ge> length (reader_threads io) then None
      else case reader_threads io ! i of
        R_None \<Rightarrow> None
      | R_Returned \<Rightarrow> None
      | R_Start \<Rightarrow>
          Some (io \<lparr> reader_threads :=
                  (reader_threads io)[i := (if mem then R_Test else R_Returned)] \<rparr>)
      | R_Test \<Rightarrow>
          Some (io \<lparr> reader_threads :=
                  (reader_threads io)[i := (if running io \<noteq> 0 then R_Read else R_Returned)] \<rparr>)
      | R_Read \<Rightarrow>
          (case r of
             Read_Error \<Rightarrow> Some (io \<lparr> reader_threads := (reader_threads io)[i := R_Returned] \<rparr>)
           | Read_Bytes n \<Rightarrow>
               if \<not> mem then Some (io \<lparr> reader_threads := (reader_threads io)[i := R_Test] \<rparr>)
               else Some (io \<lparr> reader_threads := (reader_threads io)[i := R_Test],
                               rx_packets := rx_packets io + 1,
                               rx_bytes := rx_bytes io + of_nat n \<rparr>)
           | _ \<Rightarrow> Some (io \<lparr> reader_threads := (reader_threads io)[i := R_Test] \<rparr>)))"

text \<open>
  What the system answers to a writer: the result of \<open>write\<close> on the TUN descriptor
  for a packet (the byte count, or a negative value), and whether \<open>malloc\<close> of the
  gather buffer for a chained packet succeeds.
\<close>

record io_env =
  tun_write :: "pbuf \<Rightarrow> int"
  gather_mem :: "pbuf \<Rightarrow> bool"

text \<open>
  The batch loop of \<open>writer_thread\<close>: up to \<open>room\<close> more nodes are moved from the head
  of the queue to the end of the batch.
\<close>

fun fill_batch :: "nat \<Rightarrow> pbuf list \<Rightarrow> HevTunnelIO \<Rightarrow> pbuf list \<times> HevTunnelIO" where
  "fill_batch 0 batch io = (batch, io)"
| "fill_batch (Suc room) batch io =
     (case write_queue io of
        [] \<Rightarrow> (batch, io)
      | p # ps \<Rightarrow>
          fill_batch room (batch @ [p])
            (io \<lparr> write_queue := ps, write_queue_size := write_queue_size io - 1 \<rparr>))"

text \<open>
  The body of the write loop for one packet, up to \<open>pbuf_free\<close>: the packet is
  written (a chained one after it was gathered) and counted when \<open>write\<close> returned a
  positive count.
\<close>

definition write_packet :: "io_env \<Rightarrow> pbuf \<Rightarrow> HevTunnelIO \<Rightarrow> HevTunnelIO" where
  "write_packet e p io =
     (let written = (if pb_len p = pb_tot_len p then tun_write e p
                     else if gather_mem e p then tun_write e p else - 1)
      in if written > 0
         then io \<lparr> tx_packets := tx_packets io + 1, tx_bytes := tx_bytes io + of_int written \<rparr>
         else io)"

text \<open>
  The engine with its threads at work.  Besides the structure, the state has the
  point where a call of \<open>hev_tunnel_io_stop\<close> stands (not called, joining reader
  \<open>i\<close>, joining writer \<open>j\<close>, returned) and four records of what has happened: the
  packets that \<open>hev_tunnel_io_write\<close> has put into the queue, the packets that the
  writers have taken from the queue, the packets that the writers have passed to
  \<open>pbuf_free\<close> after their \<open>write\<close>, and the trace of the joins and of the returns of
  the writers.  A writer that returns records the \<open>write_queue_size\<close> it saw in the
  test that ended its loop.
\<close>

datatype stop_pc = S_Idle | S_Join_Readers nat | S_Join_Writers nat | S_Done

datatype io_event = Join_Reader nat | Writer_Exit nat int | Join_Writer nat

record engine =
  eng_io :: HevTunnelIO
  eng_stop :: stop_pc
  eng_enqueued :: "pbuf list"
  eng_taken :: "pbuf list"
  eng_freed :: "pbuf list"
  eng_trace :: "io_event list"

definition engine_of :: "HevTunnelIO \<Rightarrow> engine" where
  "engine_of io =
     \<lparr> eng_io = io, eng_stop = S_Idle, eng_enqueued = write_queue io, eng_taken = [],
       eng_freed = [], eng_trace = [] \<rparr>"

text \<open>A thread of the stack calls \<open>hev_tunnel_io_write\<close>.\<close>

definition produce :: "bool \<Rightarrow> pbuf \<Rightarrow> engine \<Rightarrow> engine" where
  "produce node_mem p s =
     (case hev_tunnel_io_write node_mem (eng_io s) p of
        (r, io') \<Rightarrow>
          s \<lparr> eng_io := io',
              eng_enqueued := eng_enqueued s @ (if r = 0 then [p] else []) \<rparr>)"

text \<open>
  One step of \<open>writer_thread\<close> number \<open>j\<close>.  At the test
  \<open>while (io->running || io->write_queue_size > 0)\<close> it goes on to the critical
  section or leaves the loop and returns.  In the critical section it waits as long
  as the queue is empty and \<open>running\<close> is set (it takes no step then) and otherwise
  moves up to \<open>WRITE_BATCH_SIZE\<close> nodes from the queue into its batch.  In the write
  loop it writes and frees the next packet of the batch, and goes back to the test
  when the batch is done.
\<close>

definition writer_step :: "io_env \<Rightarrow> nat \<Rightarrow> engine \<Rightarrow> engine option" where
  "writer_step e j s =
     (let io = eng_io s; ws = writer_threads io
      in if j \<ge> length ws then None
         else case ws ! j of
           W_None \<Rightarrow> None
         | W_Returned \<Rightarrow> None
         | W_Test \<Rightarrow>
             if running io \<noteq> 0 \<or> write_queue_size io > 0
             then Some (s \<lparr> eng_io := io \<lparr> writer_threads := ws[j := W_Locked] \<rparr> \<rparr>)
             else Some (s \<lparr> eng_io := io \<lparr> writer_threads := ws[j := W_Returned] \<rparr>,
                            eng_trace := eng_trace s @ [Writer_Exit j (write_queue_size io)] \<rparr>)
         | W_Locked \<Rightarrow>
             if write_queue_size io = 0 \<and> running io \<noteq> 0 then None
             else (case fill_batch WRITE_BATCH_SIZE [] io of
                     (batch, io1) \<Rightarrow>
                       Some (s \<lparr> eng_io := io1 \<lparr> writer_threads := ws[j := W_Batch batch] \<rparr>,
                                 eng_taken := eng_taken s @ batch \<rparr>))
         | W_Batch [] \<Rightarrow> Some (s \<lparr> eng_io := io \<lparr> writer_threads := ws[j := W_Test] \<rparr> \<rparr>)
         | W_Batch (p # ps) \<Rightarrow>
             Some (s \<lparr> eng_io := (write_packet e p io) \<lparr> writer_threads := ws[j := W_Batch ps] \<rparr>,
                       eng_freed := eng_freed s @ [p] \<rparr>))"

text \<open>
  \<open>hev_tunnel_io_stop\<close>, step by step.  The call returns at once when \<open>running\<close> is
  0; otherwise it clears \<open>running\<close>, wakes the writers and starts to join.  A step of
  the join loops is one \<open>pthread_join\<close> that returns, which it does only when the
  joined thread has returned, or the passage from one loop to the next.  The call
  can be made when no call of it is under way.
\<close>

definition stop_call :: "engine \<Rightarrow> engine option" where
  "stop_call s =
     (if eng_stop s = S_Idle \<or> eng_stop s = S_Done
      then (if running (eng_io s) = 0 then Some (s \<lparr> eng_stop := S_Done \<rparr>)
            else Some (s \<lparr> eng_io := (eng_io s) \<lparr> running := 0 \<rparr>,
                           eng_stop := S_Join_Readers 0 \<rparr>))
      else None)"

definition stop_step :: "engine \<Rightarrow> engine option" where
  "stop_step s =
     (let io = eng_io s
      in case eng_stop s of
        S_Idle \<Rightarrow> None
      | S_Done \<Rightarrow> None
      | S_Join_Readers i \<Rightarrow>
          if int i < num_readers io
          then (if i < length (reader_threads io) \<and> reader_threads io ! i = R_Returned
                then Some (s \<lparr> eng_stop := S_Join_Readers (Suc i),
                               eng_trace := eng_trace s @ [Join_Reader i] \<rparr>)
                else None)
          else Some (s \<lparr> eng_stop := S_Join_Writers 0 \<rparr>)
      | S_Join_Writers j \<Rightarrow>
          if int j < num_writers io
          then (if j < length (writer_threads io) \<and> writer_threads io ! j = W_Returned
                then Some (s \<lparr> eng_stop := S_Join_Writers (Suc j),
                               eng_trace := eng_trace s @ [Join_Writer j] \<rparr>)
                else None)
          else Some (s \<lparr> eng_stop := S_Done \<rparr>))"

text \<open>
  An execution of the engine is a schedule: the list of the steps of all threads in
  the order in which they take effect, each step with the answers of the system it
  needs.  \<open>engine_exec\<close> is \<open>None\<close> when the schedule asks for a step that the thread
  cannot take.
\<close>

datatype engine_action =
    Produce bool pbuf
  | Reader_Step nat read_result bool
  | Writer_Step nat
  | Stop_Call
  | Stop_Step

fun engine_step :: "io_env \<Rightarrow> engine_action \<Rightarrow> engine \<Rightarrow> engine option" where
  "engine_step e (Produce node_mem p) s = Some (produce node_mem p s)"
| "engine_step e (Reader_Step i r mem) s =
     (case reader_step r mem i (eng_io s) of
        None \<Rightarrow> None
      | Some io' \<Rightarrow> Some (s \<lparr> eng_io := io' \<rparr>))"
| "engine_step e (Writer_Step j) s = writer_step e j s"
| "engine_step e Stop_Call s = stop_call s"
| "engine_step e Stop_Step s = stop_step s"

fun engine_exec :: "io_env \<Rightarrow> engine_action list \<Rightarrow> engine \<Rightarrow> engine option" where
  "engine_exec e [] s = Some s"
| "engine_exec e (a # as) s =
     (case engine_step e a s of None \<Rightarrow> None | Some s' \<Rightarrow> engine_exec e as s')"

text \<open>
  A call of \<open>hev_tunnel_io_stop\<close> while the other threads follow the schedule
  \<open>sched\<close>, in which \<open>Stop_Step\<close> marks the steps of the call itself.  The result is
  \<open>None\<close> when the schedule does not bring the call to its return.
\<close>

definition hev_tunnel_io_stop :: "io_env \<Rightarrow> engine_action list \<Rightarrow> engine \<Rightarrow> engine option" where
  "hev_tunnel_io_stop e sched s =
     (case engine_exec e (Stop_Call # sched) s of
        None \<Rightarrow> None
      | Some s' \<Rightarrow> if eng_stop s' = S_Done then Some s' else None)"

text \<open>
  \<open>hev_tunnel_io_get_stats\<close>.  An out-parameter is \<open>None\<close> for a null pointer and
  \<open>Some v\<close> for a pointer to a cell that holds \<open>v\<close>; the result gives the cells after
  the call.
\<close>

type_synonym out_param = "size_t option"

definition hev_tunnel_io_get_stats ::
    "HevTunnelIO \<Rightarrow> out_param \<Rightarrow> out_param \<Rightarrow> out_param \<Rightarrow> out_param \<Rightarrow>
     out_param \<times> out_param \<times> out_param \<times> out_param" where
  "hev_tunnel_io_get_stats io txp txb rxp rxb =
     (map_option (\<lambda>_. tx_packets io) txp, map_option (\<lambda>_. tx_bytes io) txb,
      map_option (\<lambda>_. rx_packets io) rxp, map_option (\<lambda>_. rx_bytes io) rxb)"

text \<open>
  An engine right after a successful \<open>hev_tunnel_io_start\<close>: \<open>running\<close> is set, the
  queue and its counter agree, and every thread stands at its start.
\<close>

definition engine_ready :: "HevTunnelIO \<Rightarrow> bool" where
  "engine_ready io \<longleftrightarrow>
     running io \<noteq> 0 \<and> write_queue_size io = int (length (write_queue io)) \<and>
     reader_threads io = replicate (nat (num_readers io)) R_Start \<and>
     writer_threads io = replicate (nat (num_writers io)) W_Test"

text \<open>
  The order that a trace has to keep: a writer returns only with
  \<open>write_queue_size = 0\<close>, and when a writer is joined it has returned and every
  reader has been joined before.  The joins of a trace are listed by \<open>joins\<close>.
\<close>

definition event_ok :: "nat \<Rightarrow> io_event list \<Rightarrow> io_event \<Rightarrow> bool" where
  "event_ok nr seen ev =
     (case ev of
        Join_Reader i \<Rightarrow> True
      | Writer_Exit j k \<Rightarrow> k = 0
      | Join_Writer j \<Rightarrow>
          Writer_Exit j 0 \<in> set seen \<and> list_all (\<lambda>i. Join_Reader i \<in> set seen) [0..<nr])"

fun ordered_from :: "nat \<Rightarrow> io_event list \<Rightarrow> io_event list \<Rightarrow> bool" where
  "ordered_from nr seen [] = True"
| "ordered_from nr seen (ev # evs) = (event_ok nr seen ev \<and> ordered_from nr (seen @ [ev]) evs)"

definition trace_ordered :: "nat \<Rightarrow> io_event list \<Rightarrow> bool" where
  "trace_ordered nr tr = ordered_from nr [] tr"

fun is_join :: "io_event \<Rightarrow> bool" where
  "is_join (Join_Reader i) = True"
| "is_join (Join_Writer j) = True"
| "is_join (Writer_Exit j k) = False"

definition joins :: "io_event list \<Rightarrow> io_event list" where
  "joins tr = filter is_join tr"

definition all_joins :: "nat \<Rightarrow> nat \<Rightarrow> io_event list" where
  "all_joins nr nw = map Join_Reader [0..<nr] @ map Join_Writer [0..<nw]"

text \<open>The packets that the writers hold in their batches.\<close>

fun held :: "writer_pc \<Rightarrow> pbuf list" where
  "held (W_Batch b) = b"
| "held W_None = []"
| "held W_Test = []"
| "held W_Locked = []"
| "held W_Returned = []"

definition held_all :: "writer_pc list \<Rightarrow> pbuf multiset" where
  "held_all ws = mset (concat (map held ws))"

text \<open>
  The invariant of the engine: where the call of \<open>stop\<close> stands agrees with
  \<open>running\<close>, with the joins made so far and with the threads that have returned;
  the queue and its counter agree; every packet put into the queue is still in the
  queue or was taken by a writer, and every packet taken is held in a batch or was
  freed; the trace is ordered, and a writer that has returned has its return in
  the trace.
\<close>

fun stop_ok :: "stop_pc \<Rightarrow> nat \<Rightarrow> nat \<Rightarrow> HevTunnelIO \<Rightarrow> io_event list \<Rightarrow> bool" where
  "stop_ok S_Idle nr nw io tr = (running io \<noteq> 0 \<and> tr = [])"
| "stop_ok (S_Join_Readers i) nr nw io tr =
     (running io = 0 \<and> i \<le> nr \<and> joins tr = map Join_Reader [0..<i] \<and>
      (\<forall>k<i. reader_threads io ! k = R_Returned))"
| "stop_ok (S_Join_Writers j) nr nw io tr =
     (running io = 0 \<and> j \<le> nw \<and>
      joins tr = map Join_Reader [0..<nr] @ map Join_Writer [0..<j] \<and>
      (\<forall>k<nr. reader_threads io ! k = R_Returned) \<and>
      (\<forall>k<j. writer_threads io ! k = W_Returned))"
| "stop_ok S_Done nr nw io tr =
     (running io = 0 \<and> joins tr = all_joins nr nw \<and>
      (\<forall>k<nr. reader_threads io ! k = R_Returned) \<and>
      (\<forall>k<nw. writer_threads io ! k = W_Returned))"

definition engine_inv :: "nat \<Rightarrow> nat \<Rightarrow> engine \<Rightarrow> bool" where
  "engine_inv nr nw s \<longleftrightarrow>
     nat (num_readers (eng_io s)) = nr \<and> nat (num_writers (eng_io s)) = nw \<and>
     length (reader_threads (eng_io s)) = nr \<and> length (writer_threads (eng_io s)) = nw \<and>
     R_None \<notin> set (reader_threads (eng_io s)) \<and> W_None \<notin> set (writer_threads (eng_io s)) \<and>
     write_queue_size (eng_io s) = int (length (write_queue (eng_io s))) \<and>
     eng_enqueued s = eng_taken s @ write_queue (eng_io s) \<and>
     mset (eng_taken s) = mset (eng_freed s) + held_all (writer_threads (eng_io s)) \<and>
     trace_ordered nr (eng_trace s) \<and>
     (\<forall>j<nw. writer_threads (eng_io s) ! j = W_Returned \<longrightarrow>
        Writer_Exit j 0 \<in> set (eng_trace s)) \<and>
     stop_ok (eng_stop s) nr nw (eng_io s) (eng_trace s)"

text \<open>
  A bound on the steps that the threads and the join loops can still take once
  \<open>running\<close> is cleared and no more packets arrive.  A reader has at most three
  steps to its return.  A writer that sees packets in the queue goes round its loop
  once more; the packets it takes leave the queue, which pays for the steps of its
  write loop.
\<close>

fun reader_rank :: "reader_pc \<Rightarrow> nat" where
  "reader_rank R_None = 0"
| "reader_rank R_Start = 3"
| "reader_rank R_Read = 2"
| "reader_rank R_Test = 1"
| "reader_rank R_Returned = 0"

fun writer_rank :: "nat \<Rightarrow> writer_pc \<Rightarrow> nat" where
  "writer_rank n W_None = 0"
| "writer_rank n W_Returned = 0"
| "writer_rank n W_Test = (if 0 < n then 4 else 1)"
| "writer_rank n W_Locked = 3"
| "writer_rank n (W_Batch b) = length b + 1 + (if 0 < n then 4 else 1)"

fun stop_rank :: "nat \<Rightarrow> nat \<Rightarrow> stop_pc \<Rightarrow> nat" where
  "stop_rank nr nw S_Idle = 0"
| "stop_rank nr nw (S_Join_Readers i) = (nr - i) + nw + 2"
| "stop_rank nr nw (S_Join_Writers j) = (nw - j) + 1"
| "stop_rank nr nw S_Done = 0"

definition steps_left :: "engine \<Rightarrow> nat" where
  "steps_left s =
     4 * length (write_queue (eng_io s)) +
     sum_list (map (writer_rank (length (write_queue (eng_io s)))) (writer_threads (eng_io s))) +
     sum_list (map reader_rank (reader_threads (eng_io s))) +
     stop_rank (nat (num_readers (eng_io s))) (nat (num_writers (eng_io s))) (eng_stop s)"

text \<open>The steps of the engine's own threads and of the join loops.\<close>

fun thread_action :: "engine_action \<Rightarrow> bool" where
  "thread_action (Produce node_mem p) = False"
| "thread_action Stop_Call = False"
| "thread_action (Reader_Step i r mem) = True"
| "thread_action (Writer_Step j) = True"
| "thread_action Stop_Step = True"

section \<open>Tunnel orchestrator: hev-socks5-tunnel.c\<close>

text \<open>The globals \<open>run\<close> and \<open>tunnel_io\<close> (\<open>None\<close> is the null pointer).\<close>

record tunnel =
  run :: int
  tunnel_io :: "HevTunnelIO option"

definition initial_tunnel :: tunnel where
  "initial_tunnel = \<lparr> run = 0, tunnel_io = None \<rparr>"

text \<open>
  \<open>hev_socks5_tunnel_fini\<close> and \<open>hev_socks5_tunnel_init\<close>, as far as they touch the
  two globals.  \<open>steps_ok\<close> tells whether the steps before the creation of the I/O
  engine succeed (the tunnel device, the mapped DNS, the worker pool).
\<close>

definition hev_socks5_tunnel_fini :: "tunnel \<Rightarrow> tunnel" where
  "hev_socks5_tunnel_fini g = g \<lparr> tunnel_io := None \<rparr>"

definition hev_socks5_tunnel_init ::
    "bool \<Rightarrow> bool \<Rightarrow> int \<Rightarrow> int \<Rightarrow> nat \<Rightarrow> tunnel \<Rightarrow> int \<times> tunnel" where
  "hev_socks5_tunnel_init steps_ok mem ncpus tfd m g =
     (if \<not> steps_ok then (- 1, hev_socks5_tunnel_fini g)
      else case hev_tunnel_io_new mem ncpus tfd m of
        None \<Rightarrow> (- 1, hev_socks5_tunnel_fini g)
      | Some io \<Rightarrow> (0, g \<lparr> tunnel_io := Some (hev_tunnel_io_set_read_callback True io) \<rparr>))"

text \<open>
  \<open>hev_socks5_tunnel_run\<close> up to the point where it waits for the timer thread, for
  an initialised tunnel.
\<close>

definition hev_socks5_tunnel_run :: "bool \<Rightarrow> bool \<Rightarrow> tunnel \<Rightarrow> int \<times> tunnel" where
  "hev_socks5_tunnel_run timer_created threads_created g =
     (let g1 = g \<lparr> run := 1 \<rparr>
      in if \<not> timer_created then (- 1, g1)
         else case tunnel_io g1 of
           None \<Rightarrow> (- 1, g1 \<lparr> run := 0 \<rparr>)
         | Some io \<Rightarrow>
             (case hev_tunnel_io_start threads_created io of
                (r, io') \<Rightarrow>
                  if r < 0 then (- 1, g1 \<lparr> run := 0, tunnel_io := Some io' \<rparr>)
                  else (0, g1 \<lparr> tunnel_io := Some io' \<rparr>)))"

text \<open>
  Between two calls of the orchestrator the threads of the I/O engine take the
  steps of a schedule; \<open>None\<close> when the schedule asks for a step that cannot be
  taken.
\<close>

definition tunnel_threads :: "io_env \<Rightarrow> engine_action list \<Rightarrow> tunnel \<Rightarrow> tunnel option" where
  "tunnel_threads e sched g =
     (case tunnel_io g of
        None \<Rightarrow> Some g
      | Some io \<Rightarrow>
          (case engine_exec e sched (engine_of io) of
             None \<Rightarrow> None
           | Some s \<Rightarrow> Some (g \<lparr> tunnel_io := Some (eng_io s) \<rparr>)))"

text \<open>
  \<open>hev_socks5_tunnel_stop\<close>, while the threads of the I/O engine follow the schedule
  \<open>sched\<close>; \<open>None\<close> when the schedule does not bring \<open>hev_tunnel_io_stop\<close> to its
  return.
\<close>

definition hev_socks5_tunnel_stop ::
    "io_env \<Rightarrow> engine_action list \<Rightarrow> tunnel \<Rightarrow> tunnel option" where
  "hev_socks5_tunnel_stop e sched g =
     (let g1 = g \<lparr> run := 0 \<rparr>
      in case tunnel_io g1 of
           None \<Rightarrow> Some g1
         | Some io \<Rightarrow>
             (case hev_tunnel_io_stop e sched (engine_of io) of
                None \<Rightarrow> None
              | Some s \<Rightarrow> Some (g1 \<lparr> tunnel_io := Some (eng_io s) \<rparr>)))"

text \<open>\<open>hev_socks5_tunnel_stats\<close>.\<close>

definition hev_socks5_tunnel_stats ::
    "tunnel \<Rightarrow> out_param \<Rightarrow> out_param \<Rightarrow> out_param \<Rightarrow> out_param \<Rightarrow>
     out_param \<times> out_param \<times> out_param \<times> out_param" where
  "hev_socks5_tunnel_stats g txp txb rxp rxb =
     (case tunnel_io g of
        Some io \<Rightarrow> hev_tunnel_io_get_stats io txp txb rxp rxb
      | None \<Rightarrow>
          (map_option (\<lambda>_. 0) txp, map_option (\<lambda>_. 0) txb,
           map_option (\<lambda>_. 0) rxp, map_option (\<lambda>_. 0) rxb))"

text \<open>The engine is running when the orchestrator's flag or the I/O engine's flag is set.\<close>

definition engine_running :: "tunnel \<Rightarrow> bool" where
  "engine_running g \<longleftrightarrow>
     run g \<noteq> 0 \<or> (case tunnel_io g of None \<Rightarrow> False | Some io \<Rightarrow> running io \<noteq> 0)"

section \<open>Properties of the buffer pool\<close>

lemma ffs_nonzero:
  assumes "x \<noteq> 0"
  shows "0 < ffs x \<and> ffs x \<le> 32 \<and> bit x (ffs x - 1)"
proof -
  from assms obtain i where i: "bit x i"
    by (auto simp: bit_eq_iff)
  then have "i < 32"
    using bit_imp_le_length [of x i] by simp
  with i have "\<exists>j \<in> set [0..<32]. bit x j"
    by auto
  then obtain k where k: "List.find (bit x) [0..<32] = Some k"
    by (cases "List.find (bit x) [0..<32]") (auto simp: find_None_iff)
  then have "bit x k" "k < 32"
    by (auto simp: find_Some_iff)
  with k show ?thesis
    by (simp add: ffs_def)
qed

lemma popcount_card: "popcount x = card {i. bit x i}"
proof -
  have "{i. bit x i} = {i. bit x i} \<inter> set [0..<32]"
    using bit_imp_le_length [of x] by auto
  then show ?thesis
    by (simp add: popcount_def distinct_length_filter)
qed

lemma finite_bits: "finite {i. bit (x::uint32_t) i}"
proof -
  have "{i. bit x i} \<subseteq> {..<32}"
    using bit_imp_le_length [of x] by auto
  then show ?thesis
    by (rule finite_subset) simp
qed

lemma popcount_clear:
  assumes "bit x k"
  shows "popcount (x AND NOT (push_bit k 1)) = popcount x - 1" and "0 < popcount x"
proof -
  have "{i. bit (x AND NOT (push_bit k 1)) i} = {i. bit x i} - {k}"
    using bit_imp_le_length [of x] by (auto simp: bit_and_iff bit_not_iff bit_exp_iff)
  then show "popcount (x AND NOT (push_bit k 1)) = popcount x - 1"
    using assms by (simp add: popcount_card finite_bits)
  show "0 < popcount x"
    using assms finite_bits [of x] by (auto simp: popcount_card card_gt_0_iff)
qed

lemma popcount_set:
  assumes "\<not> bit x k" "k < 32"
  shows "popcount (x OR push_bit k 1) = Suc (popcount x)"
proof -
  have "{i. bit (x OR push_bit k 1) i} = insert k {i. bit x i}"
    using assms by (auto simp: bit_or_iff bit_exp_iff)
  then show ?thesis
    using assms by (simp add: popcount_card finite_bits)
qed

lemma popcount_set_idem:
  fixes x :: uint32_t
  assumes "bit x k"
  shows "x OR push_bit k 1 = x"
  by (rule bit_eqI) (use assms in \<open>auto simp: bit_or_iff bit_exp_iff\<close>)

lemma popcount_zero_iff: "popcount x = 0 \<longleftrightarrow> x = 0"
proof -
  have "x = 0 \<longleftrightarrow> {i. bit x i} = {}"
    using bit_imp_le_length [of x] by (auto simp: bit_eq_iff [of x 0])
  then show ?thesis
    using finite_bits [of x] by (simp add: popcount_card)
qed

lemma popcount_mask: "r \<le> 32 \<Longrightarrow> popcount (mask r) = r"
proof -
  assume "r \<le> 32"
  then have "{i. bit (mask r :: uint32_t) i} = {..<r}"
    by (auto simp: bit_mask_iff)
  then show ?thesis by (simp add: popcount_card)
qed

lemma popcount_init_mask:
  assumes "w < (c + 31) div 32"
  shows "popcount (init_mask c ((c + 31) div 32) w) = min 32 (c - 32 * w)"
proof (cases "w = (c + 31) div 32 - 1 \<and> c - w * 32 < 32")
  case True
  have "init_mask c ((c + 31) div 32) w = mask (c - w * 32)"
    unfolding init_mask_def by (subst if_P [OF True]) (simp add: mask_eq_exp_minus_1)
  with True show ?thesis
    by (simp add: popcount_mask mult.commute)
next
  case False
  then have "init_mask c ((c + 31) div 32) w = mask 32"
    by (auto simp: init_mask_def mask_eq_exp_minus_1)
  moreover from False assms have "32 \<le> c - 32 * w"
    by (auto simp: mult.commute)
  ultimately show ?thesis
    by (simp add: popcount_mask)
qed

lemma alloc_buffers_Some:
  "(\<forall>i<n. al i \<noteq> 0) \<Longrightarrow> alloc_buffers al n b0 = Some (\<lambda>i. if i < n then al i else b0 i)"
proof (induction n)
  case 0
  then show ?case by simp
next
  case (Suc n)
  then have "alloc_buffers al n b0 = Some (\<lambda>i. if i < n then al i else b0 i)"
    by simp
  moreover have "al n \<noteq> 0"
    using Suc.prems by simp
  ultimately show ?case
    by (auto simp: fun_eq_iff less_Suc_eq)
qed

lemma alloc_buffers_None:
  "\<exists>i<n. al i = 0 \<Longrightarrow> alloc_buffers al n b0 = None"
proof (induction n)
  case 0
  then show ?case by simp
next
  case (Suc n)
  show ?case
  proof (cases "\<exists>i<n. al i = 0")
    case True
    then show ?thesis using Suc.IH by simp
  next
    case False
    with Suc.prems have "al n = 0"
      by (auto simp: less_Suc_eq)
    then show ?thesis
      by (simp split: option.splits)
  qed
qed

lemma init_bitmap_apply:
  "init_bitmap c bs n bm w = (if w < n then init_mask c bs w else bm w)"
  by (induction n) (auto simp: less_Suc_eq)

lemma sum_min_blocks: "(\<Sum>w<n. min 32 (c - 32 * w)) = min (c::nat) (32 * n)"
  by (induction n) auto

lemma bitmap_popcount_sum: "bitmap_popcount pool = (\<Sum>w<64. popcount (free_bitmap pool w))"
  by (simp add: bitmap_popcount_def interv_sum_list_conv_sum_set_nat atLeast0LessThan)

lemma popcount_fresh_word:
  "popcount (init_bitmap c ((c + 31) div 32) ((c + 31) div 32) (\<lambda>_. 0) w) = min 32 (c - 32 * w)"
proof (cases "w < (c + 31) div 32")
  case True
  then show ?thesis
    by (simp add: init_bitmap_apply popcount_init_mask)
next
  case False
  then have "c - 32 * w = 0"
    by arith
  with False show ?thesis
    by (simp add: init_bitmap_apply popcount_zero_iff)
qed

lemma bit_init_mask:
  assumes "w < (c + 31) div 32" "bit (init_mask c ((c + 31) div 32) w) b"
  shows "w * 32 + b < c"
proof (cases "w = (c + 31) div 32 - 1 \<and> c - w * 32 < 32")
  case True
  have "init_mask c ((c + 31) div 32) w = mask (c - w * 32)"
    unfolding init_mask_def by (subst if_P [OF True]) (simp add: mask_eq_exp_minus_1)
  with assms(2) have "b < c - w * 32"
    by (simp add: bit_mask_iff)
  then show ?thesis by arith
next
  case False
  with assms(1) have "32 \<le> c - 32 * w"
    by (auto simp: mult.commute)
  moreover have "b < 32"
    using bit_imp_le_length [OF assms(2)] by simp
  ultimately show ?thesis by arith
qed

lemma new_Some:
  assumes "\<forall>i<min bcount POOL_MAX_BUFFERS. al i \<noteq> 0"
  shows "hev_memory_pool_new True al bsize bcount =
    Some \<lparr> buffers = (\<lambda>i. if i < min bcount POOL_MAX_BUFFERS then al i else 0),
           free_bitmap = init_bitmap (min bcount POOL_MAX_BUFFERS) ((min bcount POOL_MAX_BUFFERS + 31) div 32)
              ((min bcount POOL_MAX_BUFFERS + 31) div 32) (\<lambda>_. 0),
           buffer_size = bsize, buffer_count = min bcount POOL_MAX_BUFFERS,
           allocated = 0, peak_usage = 0 \<rparr>"
proof -
  have m: "(if bcount > POOL_MAX_BUFFERS then POOL_MAX_BUFFERS else bcount) = min bcount POOL_MAX_BUFFERS"
    by simp
  show ?thesis
    unfolding hev_memory_pool_new_def m Let_def
    using alloc_buffers_Some [OF assms] by simp
qed

lemma fresh_bits_in_range:
  "bits_in_range \<lparr> buffers = bf, free_bitmap = init_bitmap c ((c + 31) div 32) ((c + 31) div 32) (\<lambda>_. 0),
      buffer_size = bsize, buffer_count = c, allocated = a, peak_usage = pk \<rparr>"
  by (auto simp: bits_in_range_def init_bitmap_apply dest: bit_init_mask split: if_splits)

lemma fresh_popcount:
  assumes "c \<le> POOL_MAX_BUFFERS"
  shows "bitmap_popcount \<lparr> buffers = bf, free_bitmap = init_bitmap c ((c + 31) div 32) ((c + 31) div 32) (\<lambda>_. 0),
      buffer_size = bsize, buffer_count = c, allocated = a, peak_usage = pk \<rparr> = c"
  using assms by (simp add: bitmap_popcount_sum popcount_fresh_word sum_min_blocks POOL_MAX_BUFFERS_def)

lemma bitmap_popcount_upd:
  assumes "j < 64"
  shows "bitmap_popcount (pool\<lparr>free_bitmap := (free_bitmap pool)(j := v)\<rparr>) + popcount (free_bitmap pool j)
       = bitmap_popcount pool + popcount v"
proof -
  let ?f = "\<lambda>w. popcount (free_bitmap pool w)"
  let ?g = "\<lambda>w. popcount (((free_bitmap pool)(j := v)) w)"
  have f: "sum ?f {..<64} = ?f j + sum ?f ({..<64} - {j})"
    using assms by (simp add: sum.remove)
  have g: "sum ?g {..<64} = ?g j + sum ?g ({..<64} - {j})"
    using assms by (simp add: sum.remove)
  have "sum ?g ({..<64} - {j}) = sum ?f ({..<64} - {j})"
    by (rule sum.cong) auto
  with f g show ?thesis
    by (simp add: bitmap_popcount_sum)
qed

lemma bits_in_range_word:
  assumes "bits_in_range pool" "buffer_count pool \<le> POOL_MAX_BUFFERS" "free_bitmap pool j \<noteq> 0"
  shows "j < (buffer_count pool + 31) div 32" "j < 64"
proof -
  from assms(3) obtain b where b: "bit (free_bitmap pool j) b"
    by (auto simp: bit_eq_iff [of "free_bitmap pool j" 0])
  with assms(1) have "j * 32 + b < buffer_count pool"
    by (simp add: bits_in_range_def)
  then show "j < (buffer_count pool + 31) div 32" by arith
  with assms(2) show "j < 64"
    by (simp add: POOL_MAX_BUFFERS_def)
qed

lemma alloc_scan_cases:
  "(\<forall>j. i \<le> j \<and> j < i + n \<longrightarrow> free_bitmap pool j = 0) \<and> alloc_scan pool i n = (0, pool) \<or>
   (\<exists>j. i \<le> j \<and> j < i + n \<and> free_bitmap pool j \<noteq> 0 \<and> alloc_scan pool i n = claim_slot pool j)"
proof (induction n arbitrary: i)
  case 0
  then show ?case by auto
next
  case (Suc n)
  show ?case
  proof (cases "free_bitmap pool i = 0")
    case False
    then show ?thesis by auto
  next
    case True
    from Suc.IH [of "Suc i"] show ?thesis
    proof
      assume a: "(\<forall>j. Suc i \<le> j \<and> j < Suc i + n \<longrightarrow> free_bitmap pool j = 0) \<and>
                 alloc_scan pool (Suc i) n = (0, pool)"
      have "\<forall>j. i \<le> j \<and> j < i + Suc n \<longrightarrow> free_bitmap pool j = 0"
      proof (intro allI impI)
        fix j assume "i \<le> j \<and> j < i + Suc n"
        then have "j = i \<or> (Suc i \<le> j \<and> j < Suc i + n)" by arith
        with a True show "free_bitmap pool j = 0" by blast
      qed
      with a True show ?thesis by simp
    next
      assume "\<exists>j. Suc i \<le> j \<and> j < Suc i + n \<and> free_bitmap pool j \<noteq> 0 \<and>
                  alloc_scan pool (Suc i) n = claim_slot pool j"
      then obtain j where "Suc i \<le> j" "j < Suc i + n" "free_bitmap pool j \<noteq> 0"
        "alloc_scan pool (Suc i) n = claim_slot pool j" by blast
      with True have "i \<le> j \<and> j < i + Suc n \<and> free_bitmap pool j \<noteq> 0 \<and>
         alloc_scan pool i (Suc n) = claim_slot pool j" by simp
      then show ?thesis by blast
    qed
  qed
qed

lemma alloc_cases:
  assumes "bits_in_range pool" "buffer_count pool \<le> POOL_MAX_BUFFERS"
  shows "bitmap_popcount pool = 0 \<and> hev_memory_pool_alloc pool = (0, pool) \<or>
    (\<exists>j. free_bitmap pool j \<noteq> 0 \<and> hev_memory_pool_alloc pool = claim_slot pool j)"
proof -
  from alloc_scan_cases [of 0 "(buffer_count pool + 31) div 32" pool]
  show ?thesis
  proof
    assume a: "(\<forall>j. 0 \<le> j \<and> j < 0 + (buffer_count pool + 31) div 32 \<longrightarrow> free_bitmap pool j = 0) \<and>
      alloc_scan pool 0 ((buffer_count pool + 31) div 32) = (0, pool)"
    have "free_bitmap pool j = 0" for j
      using a bits_in_range_word(1) [OF assms, of j] by auto
    then have "bitmap_popcount pool = 0"
      by (simp add: bitmap_popcount_sum popcount_zero_iff)
    with a show ?thesis
      by (simp add: hev_memory_pool_alloc_def)
  next
    assume "\<exists>j. 0 \<le> j \<and> j < 0 + (buffer_count pool + 31) div 32 \<and> free_bitmap pool j \<noteq> 0 \<and>
      alloc_scan pool 0 ((buffer_count pool + 31) div 32) = claim_slot pool j"
    then show ?thesis
      by (auto simp: hev_memory_pool_alloc_def)
  qed
qed

lemma claim_slot_fields:
  "buffers (snd (claim_slot pool j)) = buffers pool"
  "buffer_count (snd (claim_slot pool j)) = buffer_count pool"
  "buffer_size (snd (claim_slot pool j)) = buffer_size pool"
  "allocated (snd (claim_slot pool j)) = allocated pool + 1"
  "peak_usage (snd (claim_slot pool j)) =
     (if allocated pool + 1 > peak_usage pool then allocated pool + 1 else peak_usage pool)"
  "free_bitmap (snd (claim_slot pool j)) =
     (free_bitmap pool)(j := free_bitmap pool j AND NOT (push_bit (ffs (free_bitmap pool j) - 1) 1))"
  "fst (claim_slot pool j) = buffers pool (j * 32 + (ffs (free_bitmap pool j) - 1))"
  by (simp_all add: claim_slot_def Let_def)

lemma claim_slot_popcount:
  assumes "bits_in_range pool" "buffer_count pool \<le> POOL_MAX_BUFFERS" "free_bitmap pool j \<noteq> 0"
  shows "Suc (bitmap_popcount (snd (claim_slot pool j))) = bitmap_popcount pool"
proof -
  let ?x = "free_bitmap pool j"
  let ?b = "ffs ?x - 1"
  have bit: "bit ?x ?b"
    using ffs_nonzero [OF assms(3)] by simp
  have j: "j < 64"
    by (rule bits_in_range_word(2) [OF assms])
  have eq: "snd (claim_slot pool j) =
      (pool\<lparr>free_bitmap := (free_bitmap pool)(j := ?x AND NOT (push_bit ?b 1))\<rparr>)
        \<lparr>allocated := allocated pool + 1,
         peak_usage := (if allocated pool + 1 > peak_usage pool then allocated pool + 1 else peak_usage pool)\<rparr>"
    by (simp add: claim_slot_def Let_def)
  have "bitmap_popcount (snd (claim_slot pool j)) =
      bitmap_popcount (pool\<lparr>free_bitmap := (free_bitmap pool)(j := ?x AND NOT (push_bit ?b 1))\<rparr>)"
    unfolding eq by (simp add: bitmap_popcount_def)
  with bitmap_popcount_upd [OF j, of pool "?x AND NOT (push_bit ?b 1)"]
    popcount_clear [OF bit]
  show ?thesis by simp
qed

lemma claim_slot_bits_in_range:
  assumes "bits_in_range pool"
  shows "bits_in_range (snd (claim_slot pool j))"
  using assms
  by (auto simp: bits_in_range_def claim_slot_fields bit_and_iff)

lemma claim_slot_result:
  assumes "pool_wf pool" "free_bitmap pool j \<noteq> 0"
  shows "fst (claim_slot pool j) \<noteq> 0"
proof -
  have "bit (free_bitmap pool j) (ffs (free_bitmap pool j) - 1)"
    using ffs_nonzero [OF assms(2)] by simp
  with assms(1) have "j * 32 + (ffs (free_bitmap pool j) - 1) < buffer_count pool"
    by (simp add: pool_wf_def bits_in_range_def)
  with assms(1) show ?thesis
    by (simp add: claim_slot_fields pool_wf_def)
qed

lemma unat_succ_small:
  fixes a :: size_t
  assumes "unat a < 2048"
  shows "unat (a + 1) = Suc (unat a)"
proof -
  have "unat (a + 1) = (unat a + 1) mod 2 ^ 64"
    by (simp add: unat_word_ariths)
  with assms show ?thesis by simp
qed

lemma alloc_keeps:
  assumes wf: "pool_wf pool" and co: "conserved (buffer_count pool) pool"
    and al: "hev_memory_pool_alloc pool = (q, pool')"
  shows "pool_wf pool'" "conserved (buffer_count pool') pool'"
    "buffer_count pool' = buffer_count pool" "buffers pool' = buffers pool"
    "if bitmap_popcount pool = 0 then q = 0 \<and> pool' = pool
     else q \<noteq> 0 \<and> Suc (bitmap_popcount pool') = bitmap_popcount pool"
proof -
  have bir: "bits_in_range pool" and cnt: "buffer_count pool \<le> POOL_MAX_BUFFERS"
    using wf by (simp_all add: pool_wf_def)
  from alloc_cases [OF bir cnt]
  have "pool_wf pool' \<and> conserved (buffer_count pool') pool' \<and>
    buffer_count pool' = buffer_count pool \<and> buffers pool' = buffers pool \<and>
    (if bitmap_popcount pool = 0 then q = 0 \<and> pool' = pool
     else q \<noteq> 0 \<and> Suc (bitmap_popcount pool') = bitmap_popcount pool)"
  proof
    assume "bitmap_popcount pool = 0 \<and> hev_memory_pool_alloc pool = (0, pool)"
    with al wf co show ?thesis by simp
  next
    assume "\<exists>j. free_bitmap pool j \<noteq> 0 \<and> hev_memory_pool_alloc pool = claim_slot pool j"
    then obtain j where nz: "free_bitmap pool j \<noteq> 0"
      and cs: "hev_memory_pool_alloc pool = claim_slot pool j" by blast
    from al cs have q: "q = fst (claim_slot pool j)" and p': "pool' = snd (claim_slot pool j)"
      by simp_all
    have pc: "Suc (bitmap_popcount pool') = bitmap_popcount pool"
      unfolding p' by (rule claim_slot_popcount [OF bir cnt nz])
    have qn: "q \<noteq> 0"
      unfolding q by (rule claim_slot_result [OF wf nz])
    have f: "buffer_count pool' = buffer_count pool" "buffers pool' = buffers pool"
      "allocated pool' = allocated pool + 1"
      "peak_usage pool' =
        (if allocated pool + 1 > peak_usage pool then allocated pool + 1 else peak_usage pool)"
      unfolding p' by (simp_all add: claim_slot_fields)
    have wf': "pool_wf pool'"
      using wf claim_slot_bits_in_range [OF bir, of j]
      by (simp add: pool_wf_def f p' [symmetric])
    from co have sum: "bitmap_popcount pool + unat (allocated pool) = buffer_count pool"
      and le: "allocated pool \<le> peak_usage pool" and pk: "unat (peak_usage pool) \<le> buffer_count pool"
      by (simp_all add: conserved_def)
    from sum pc cnt have small: "unat (allocated pool) < 2048"
      by (simp add: POOL_MAX_BUFFERS_def)
    have ua: "unat (allocated pool + 1) = Suc (unat (allocated pool))"
      by (rule unat_succ_small [OF small])
    have "conserved (buffer_count pool') pool'"
      unfolding conserved_def f
      using sum pc pk le ua by (auto simp: not_less)
    with wf' f pc qn show ?thesis by simp
  qed
  then show "pool_wf pool'" "conserved (buffer_count pool') pool'"
    "buffer_count pool' = buffer_count pool" "buffers pool' = buffers pool"
    "if bitmap_popcount pool = 0 then q = 0 \<and> pool' = pool
     else q \<noteq> 0 \<and> Suc (bitmap_popcount pool') = bitmap_popcount pool"
    by blast+
qed

lemma pool_run_Allocate:
  "pool_run (Allocate # cs) pool =
     (fst (hev_memory_pool_alloc pool) # fst (pool_run cs (snd (hev_memory_pool_alloc pool))),
      snd (pool_run cs (snd (hev_memory_pool_alloc pool))))"
  by (simp add: split_beta)

lemma alloc_run_results:
  assumes "pool_wf pool" "conserved (buffer_count pool) pool" "k < n"
  shows "(fst (pool_run (replicate n Allocate) pool) ! k \<noteq> 0) = (k < bitmap_popcount pool)"
  using assms
proof (induction n arbitrary: pool k)
  case 0
  then show ?case by simp
next
  case (Suc n)
  obtain q pool' where al: "hev_memory_pool_alloc pool = (q, pool')"
    by (cases "hev_memory_pool_alloc pool")
  note keep = alloc_keeps [OF Suc.prems(1) Suc.prems(2) al]
  have run: "fst (pool_run (replicate (Suc n) Allocate) pool) =
      q # fst (pool_run (replicate n Allocate) pool')"
    by (simp add: al split_beta)
  show ?case
  proof (cases k)
    case 0
    with keep(5) show ?thesis
      unfolding run by (auto split: if_splits)
  next
    case (Suc k')
    with Suc.prems have "k' < n" by simp
    from Suc.IH [OF keep(1) keep(2) this]
    have "(fst (pool_run (replicate n Allocate) pool') ! k' \<noteq> 0) = (k' < bitmap_popcount pool')" .
    with keep(5) Suc show ?thesis
      unfolding run by (auto split: if_splits)
  qed
qed

lemma new_wf:
  assumes "\<forall>i<min bcount POOL_MAX_BUFFERS. al i \<noteq> 0"
    and "hev_memory_pool_new True al bsize bcount = Some pool"
  shows "pool_wf pool" "conserved (buffer_count pool) pool"
    "buffer_count pool = min bcount POOL_MAX_BUFFERS" "bitmap_popcount pool = min bcount POOL_MAX_BUFFERS"
proof -
  let ?c = "min bcount POOL_MAX_BUFFERS"
  have c: "?c \<le> POOL_MAX_BUFFERS" by simp
  from assms(2) have p: "pool = \<lparr> buffers = (\<lambda>i. if i < ?c then al i else 0),
           free_bitmap = init_bitmap ?c ((?c + 31) div 32) ((?c + 31) div 32) (\<lambda>_. 0),
           buffer_size = bsize, buffer_count = ?c, allocated = 0, peak_usage = 0 \<rparr>"
    unfolding new_Some [OF assms(1)] by simp
  show cnt: "buffer_count pool = ?c"
    unfolding p by simp
  show pc: "bitmap_popcount pool = ?c"
    unfolding p by (rule fresh_popcount [OF c])
  have "bits_in_range pool"
    unfolding p by (rule fresh_bits_in_range)
  moreover have "\<forall>i<buffer_count pool. buffers pool i \<noteq> 0"
    using assms(1) unfolding p by simp
  ultimately show "pool_wf pool"
    using cnt by (simp add: pool_wf_def)
  have "allocated pool = 0" "peak_usage pool = 0"
    unfolding p by simp_all
  with pc cnt show "conserved (buffer_count pool) pool"
    by (simp add: conserved_def)
qed

text \<open>
  Claim C9.  A request for more than 2048 buffers is not refused: the constructor
  behaves exactly as for a request of 2048, and when the allocator delivers, the pool
  it returns has \<open>buffer_count = 2048\<close>.  In any run of \<open>allocate\<close> calls on that
  pool, the calls that return a buffer are exactly the first 2048; every later call
  returns null.
\<close>

theorem pool_new_clamps_capacity:
  assumes big: "POOL_MAX_BUFFERS < bcount"
    and mem: "\<forall>i<POOL_MAX_BUFFERS. aligned_alloc i \<noteq> NULL"
  shows "hev_memory_pool_new pool_mem aligned_alloc bsize bcount =
           hev_memory_pool_new pool_mem aligned_alloc bsize POOL_MAX_BUFFERS \<and>
         (\<exists>pool. hev_memory_pool_new True aligned_alloc bsize bcount = Some pool \<and>
            buffer_count pool = 2048 \<and>
            (\<forall>n k. k < n \<longrightarrow>
               (fst (pool_run (replicate n Allocate) pool) ! k \<noteq> NULL) = (k < 2048)))"
proof -
  have same: "hev_memory_pool_new pool_mem aligned_alloc bsize bcount =
           hev_memory_pool_new pool_mem aligned_alloc bsize POOL_MAX_BUFFERS"
    using big by (simp add: hev_memory_pool_new_def)
  have m: "min bcount POOL_MAX_BUFFERS = POOL_MAX_BUFFERS"
    using big by simp
  from mem have mem': "\<forall>i<min bcount POOL_MAX_BUFFERS. aligned_alloc i \<noteq> 0"
    unfolding m .
  obtain pool where p: "hev_memory_pool_new True aligned_alloc bsize bcount = Some pool"
    using new_Some [OF mem'] by blast
  note w = new_wf [OF mem' p]
  have "(fst (pool_run (replicate n Allocate) pool) ! k \<noteq> 0) = (k < 2048)" if "k < n" for n k
    using alloc_run_results [OF w(1) w(2) that] w(4) m big by (auto simp: POOL_MAX_BUFFERS_def)
  with p w(3) m same show ?thesis
    by (simp add: POOL_MAX_BUFFERS_def)
qed

theorem pool_new_clamps_capacity_witness:
  "POOL_MAX_BUFFERS < 5000 \<and> (\<exists>pool. hev_memory_pool_new True (\<lambda>i. 64 * Suc i) 2048 5000 = Some pool \<and>
      buffer_count pool = 2048 \<and>
      fst (pool_run (replicate 2049 Allocate) pool) ! 2047 \<noteq> NULL \<and>
      fst (pool_run (replicate 2049 Allocate) pool) ! 2048 = NULL)"
proof -
  have big: "POOL_MAX_BUFFERS < 5000"
    by (simp add: POOL_MAX_BUFFERS_def)
  have mem: "\<forall>i<POOL_MAX_BUFFERS. 64 * Suc i \<noteq> NULL"
    by simp
  from pool_new_clamps_capacity [OF big mem, of True 2048]
  obtain pool where p: "hev_memory_pool_new True (\<lambda>i. 64 * Suc i) 2048 5000 = Some pool"
    and c: "buffer_count pool = 2048"
    and r: "\<forall>n k. k < n \<longrightarrow>
               (fst (pool_run (replicate n Allocate) pool) ! k \<noteq> NULL) = (k < 2048)"
    by blast
  from r [rule_format, of 2047 2049] r [rule_format, of 2048 2049] p c big
  show ?thesis by simp
qed

lemma find_buffer_None:
  "find_buffer pool p i n = None \<longleftrightarrow> (\<forall>j<n. buffers pool (i + j) \<noteq> p)"
proof (induction n arbitrary: i)
  case 0
  then show ?case by simp
next
  case (Suc n)
  then show ?case
    by (simp add: All_less_Suc2)
qed

lemma find_buffer_Some:
  "find_buffer pool p i n = Some k \<Longrightarrow> i \<le> k \<and> k < i + n \<and> buffers pool k = p"
proof (induction n arbitrary: i)
  case 0
  then show ?case by simp
next
  case (Suc n)
  show ?case
  proof (cases "buffers pool i = p")
    case True
    with Suc.prems show ?thesis by simp
  next
    case False
    with Suc.prems have "find_buffer pool p (Suc i) n = Some k" by simp
    from Suc.IH [OF this] show ?thesis by simp
  qed
qed

lemma find_buffer_distinct:
  assumes "distinct_buffers pool" "idx < buffer_count pool"
  shows "find_buffer pool (buffers pool idx) 0 (buffer_count pool) = Some idx"
proof (cases "find_buffer pool (buffers pool idx) 0 (buffer_count pool)")
  case None
  with assms(2) show ?thesis
    by (auto simp: find_buffer_None)
next
  case (Some k)
  from find_buffer_Some [OF this] have "k < buffer_count pool" "buffers pool k = buffers pool idx"
    by simp_all
  with assms have "k = idx"
    by (auto simp: distinct_buffers_def inj_on_def)
  with Some show ?thesis by simp
qed

lemma free_foreign:
  assumes "foreign pool p"
  shows "hev_memory_pool_free pool p = pool"
proof -
  from assms have "find_buffer pool p 0 (buffer_count pool) = None"
    by (simp add: find_buffer_None foreign_def)
  then show ?thesis
    by (simp add: hev_memory_pool_free_def)
qed

lemma free_null: "hev_memory_pool_free pool 0 = pool"
  by (simp add: hev_memory_pool_free_def)

lemma free_slot:
  assumes "pool_wf pool" "distinct_buffers pool" "idx < buffer_count pool"
  shows "hev_memory_pool_free pool (buffers pool idx) =
     pool \<lparr> free_bitmap := (free_bitmap pool)
               (idx div 32 := free_bitmap pool (idx div 32) OR push_bit (idx mod 32) 1),
            allocated := allocated pool - 1 \<rparr>"
proof -
  have "buffers pool idx \<noteq> 0"
    using assms(1,3) by (simp add: pool_wf_def)
  then show ?thesis
    using find_buffer_distinct [OF assms(2,3)]
    by (simp add: hev_memory_pool_free_def Let_def)
qed

lemma free_free_slot:
  assumes "pool_wf pool" "distinct_buffers pool" "idx < buffer_count pool" "slot_free pool idx"
  shows "hev_memory_pool_free pool (buffers pool idx) = pool \<lparr> allocated := allocated pool - 1 \<rparr>"
proof -
  have "free_bitmap pool (idx div 32) OR push_bit (idx mod 32) 1 = free_bitmap pool (idx div 32)"
    using assms(4) by (simp only: slot_free_def popcount_set_idem)
  then show ?thesis
    unfolding free_slot [OF assms(1-3)] by simp
qed

text \<open>
  Claim C3.  Freeing a foreign pointer or the null pointer leaves the pool as it is
  (\<open>free_foreign\<close>, \<open>free_null\<close>).  Freeing a buffer whose slot is already free does
  not: the bitmap is unchanged but \<open>allocated\<close> is decremented all the same
  (\<open>free_free_slot\<close>).  On a fresh pool of one buffer at address 64, \<open>free (64)\<close>
  takes \<open>allocated\<close> from 0 to \<open>2 ^ 64 - 1\<close>.
\<close>

theorem double_free_decrements_allocated:
  "\<exists>pool. hev_memory_pool_new True (\<lambda>i. 64 * Suc i) 2048 1 = Some pool \<and>
     buffers pool 0 = 64 \<and> slot_free pool 0 \<and> allocated pool = 0 \<and>
     hev_memory_pool_free pool 64 = pool \<lparr> allocated := 0xFFFFFFFFFFFFFFFF \<rparr> \<and>
     hev_memory_pool_free pool 64 \<noteq> pool"
  by (simp add: hev_memory_pool_new_def POOL_MAX_BUFFERS_def init_mask_def
      hev_memory_pool_free_def slot_free_def)


lemma popcount_numerals: "popcount 0 = 0" "popcount 1 = 1"
  by (simp_all add: popcount_def upt_rec)

text \<open>
  Claim C1.  The statistics are not conserved along every run of calls: on a fresh
  pool of capacity 1, the single call \<open>free (64)\<close> of the buffer that was never lent
  leaves one set bit and \<open>allocated = 2 ^ 64 - 1\<close> above \<open>peak = 0\<close>.
\<close>

theorem double_free_breaks_conservation:
  "\<exists>pool. hev_memory_pool_new True (\<lambda>i. 64 * Suc i) 2048 1 = Some pool \<and>
     conserved 1 pool \<and>
     bitmap_popcount (snd (pool_run [Free 64] pool)) = 1 \<and>
     unat (allocated (snd (pool_run [Free 64] pool))) = 18446744073709551615 \<and>
     peak_usage (snd (pool_run [Free 64] pool)) = 0 \<and>
     \<not> conserved 1 (snd (pool_run [Free 64] pool))"
  by (simp add: hev_memory_pool_new_def POOL_MAX_BUFFERS_def init_mask_def
      hev_memory_pool_free_def conserved_def bitmap_popcount_def popcount_numerals upt_rec
      unsigned_minus_1_eq_mask mask_eq_exp_minus_1)

lemma popcount_le_block:
  assumes "bits_in_range pool"
  shows "popcount (free_bitmap pool w) \<le> min 32 (buffer_count pool - 32 * w)"
proof -
  have "{b. bit (free_bitmap pool w) b} \<subseteq> {..<min 32 (buffer_count pool - 32 * w)}"
  proof
    fix b assume "b \<in> {b. bit (free_bitmap pool w) b}"
    then have b: "bit (free_bitmap pool w) b" by simp
    then have "b < 32"
      using bit_imp_le_length [of "free_bitmap pool w" b] by simp
    moreover from assms b have "w * 32 + b < buffer_count pool"
      by (simp add: bits_in_range_def)
    ultimately show "b \<in> {..<min 32 (buffer_count pool - 32 * w)}"
      by simp
  qed
  from card_mono [OF _ this] show ?thesis
    by (simp add: popcount_card)
qed

lemma popcount_lt_block:
  assumes "bits_in_range pool" "idx < buffer_count pool" "\<not> slot_free pool idx"
  shows "popcount (free_bitmap pool (idx div 32)) < min 32 (buffer_count pool - 32 * (idx div 32))"
proof -
  let ?w = "idx div 32"
  let ?m = "min 32 (buffer_count pool - 32 * ?w)"
  have in_m: "idx mod 32 < ?m"
    using assms(2) by simp arith
  have "{b. bit (free_bitmap pool ?w) b} \<subseteq> {..<?m} - {idx mod 32}"
  proof
    fix b assume "b \<in> {b. bit (free_bitmap pool ?w) b}"
    then have b: "bit (free_bitmap pool ?w) b" by simp
    then have "b < 32"
      using bit_imp_le_length [of "free_bitmap pool ?w" b] by simp
    moreover from assms(1) b have "?w * 32 + b < buffer_count pool"
      by (simp add: bits_in_range_def)
    moreover from assms(3) b have "b \<noteq> idx mod 32"
      by (auto simp: slot_free_def)
    ultimately show "b \<in> {..<?m} - {idx mod 32}"
      by simp
  qed
  from card_mono [OF _ this] have "popcount (free_bitmap pool ?w) \<le> card ({..<?m} - {idx mod 32})"
    by (simp add: popcount_card)
  also have "\<dots> = ?m - 1"
    using in_m by (simp add: card_Diff_singleton_if)
  also have "\<dots> < ?m"
    using in_m by arith
  finally show ?thesis .
qed

lemma popcount_lt_total:
  assumes "pool_wf pool" "idx < buffer_count pool" "\<not> slot_free pool idx"
  shows "bitmap_popcount pool < buffer_count pool"
proof -
  have bir: "bits_in_range pool" and cnt: "buffer_count pool \<le> 2048"
    using assms(1) by (simp_all add: pool_wf_def POOL_MAX_BUFFERS_def)
  let ?f = "\<lambda>w. popcount (free_bitmap pool w)"
  let ?g = "\<lambda>w. min 32 (buffer_count pool - 32 * w)"
  have "idx div 32 < 64"
    using assms(2) cnt by simp
  then have "\<exists>w\<in>{..<64}. ?f w < ?g w"
    using popcount_lt_block [OF bir assms(2,3)] by blast
  moreover have "\<forall>w\<in>{..<64}. ?f w \<le> ?g w"
    using popcount_le_block [OF bir] by blast
  ultimately have "sum ?f {..<64} < sum ?g {..<64}"
    by (intro sum_strict_mono_ex1) simp_all
  also have "\<dots> = buffer_count pool"
    using cnt by (simp add: sum_min_blocks)
  finally show ?thesis
    by (simp add: bitmap_popcount_sum)
qed

lemma free_lent_keeps:
  assumes wf: "pool_wf pool" and di: "distinct_buffers pool"
    and co: "conserved (buffer_count pool) pool"
    and idx: "idx < buffer_count pool" and nf: "\<not> slot_free pool idx"
  defines "pool' \<equiv> hev_memory_pool_free pool (buffers pool idx)"
  shows "pool_wf pool'" "distinct_buffers pool'" "conserved (buffer_count pool') pool'"
    "buffer_count pool' = buffer_count pool" "buffers pool' = buffers pool"
    "bitmap_popcount pool' = Suc (bitmap_popcount pool)"
proof -
  let ?w = "idx div 32" and ?b = "idx mod 32"
  have bir: "bits_in_range pool" and cnt: "buffer_count pool \<le> 2048"
    using wf by (simp_all add: pool_wf_def POOL_MAX_BUFFERS_def)
  have p': "pool' = pool \<lparr> free_bitmap := (free_bitmap pool)
               (?w := free_bitmap pool ?w OR push_bit ?b 1),
            allocated := allocated pool - 1 \<rparr>"
    unfolding pool'_def by (rule free_slot [OF wf di idx])
  show f: "buffer_count pool' = buffer_count pool" "buffers pool' = buffers pool"
    unfolding p' by simp_all
  have w64: "?w < 64"
    using idx cnt by simp
  have nb: "\<not> bit (free_bitmap pool ?w) ?b"
    using nf by (simp add: slot_free_def)
  have "bitmap_popcount pool' =
     bitmap_popcount (pool \<lparr> free_bitmap := (free_bitmap pool)(?w := free_bitmap pool ?w OR push_bit ?b 1) \<rparr>)"
    unfolding p' by (simp add: bitmap_popcount_def)
  with bitmap_popcount_upd [OF w64, of pool "free_bitmap pool ?w OR push_bit ?b 1"]
    popcount_set [OF nb]
  show pc: "bitmap_popcount pool' = Suc (bitmap_popcount pool)"
    by simp
  have "bits_in_range pool'"
    unfolding bits_in_range_def
  proof (intro allI impI)
    fix w b assume "bit (free_bitmap pool' w) b"
    then have "bit (free_bitmap pool w) b \<or> (w = ?w \<and> b = ?b)"
      unfolding p' by (auto simp: bit_or_iff bit_exp_iff split: if_splits)
    then show "w * 32 + b < buffer_count pool'"
      using bir idx f by (auto simp: bits_in_range_def)
  qed
  with wf show "pool_wf pool'"
    by (simp add: pool_wf_def f)
  show "distinct_buffers pool'"
    using di by (simp add: distinct_buffers_def f)
  from co have sum: "bitmap_popcount pool + unat (allocated pool) = buffer_count pool"
    and le: "allocated pool \<le> peak_usage pool" and pk: "unat (peak_usage pool) \<le> buffer_count pool"
    by (simp_all add: conserved_def)
  from popcount_lt_total [OF wf idx nf] sum have pos: "0 < unat (allocated pool)"
    by simp
  then have nz: "allocated pool \<noteq> 0"
    by (auto simp: unat_eq_0)
  have um: "unat (allocated pool - 1) = unat (allocated pool) - 1"
    by (rule unat_minus_one [OF nz])
  have "allocated pool - 1 \<le> allocated pool"
    using um by (simp add: word_le_nat_alt)
  with le have le': "allocated pool - 1 \<le> peak_usage pool"
    by simp
  have a': "allocated pool' = allocated pool - 1" and pk': "peak_usage pool' = peak_usage pool"
    unfolding p' by simp_all
  show "conserved (buffer_count pool') pool'"
    unfolding conserved_def f a' pk' pc
    using sum pos um le' pk by simp
qed

text \<open>
  Along an orderly run, where every \<open>free\<close> gets a lent, a foreign or the null pointer,
  the pool stays well formed and its statistics are conserved.
\<close>

lemma orderly_run_keeps:
  assumes "pool_wf pool" "distinct_buffers pool" "conserved (buffer_count pool) pool"
    "orderly cs pool"
  shows "pool_wf (snd (pool_run cs pool)) \<and> distinct_buffers (snd (pool_run cs pool)) \<and>
    buffer_count (snd (pool_run cs pool)) = buffer_count pool \<and>
    conserved (buffer_count pool) (snd (pool_run cs pool))"
  using assms
proof (induction cs arbitrary: pool)
  case Nil
  then show ?case by simp
next
  case (Cons c cs)
  let ?p = "snd (pool_step c pool)"
  have step: "pool_wf ?p \<and> distinct_buffers ?p \<and> buffer_count ?p = buffer_count pool \<and>
      conserved (buffer_count ?p) ?p"
  proof (cases c)
    case Allocate
    obtain q pool' where al: "hev_memory_pool_alloc pool = (q, pool')"
      by (cases "hev_memory_pool_alloc pool")
    note k = alloc_keeps [OF Cons.prems(1) Cons.prems(3) al]
    from k Cons.prems(2) have "distinct_buffers pool'"
      by (simp add: distinct_buffers_def)
    with k Allocate al show ?thesis by simp
  next
    case (Free p)
    with Cons.prems(4) have "p = 0 \<or> lent pool p \<or> foreign pool p"
      by simp
    then show ?thesis
    proof (elim disjE)
      assume "p = 0"
      with Free Cons.prems show ?thesis by (simp add: free_null)
    next
      assume "foreign pool p"
      with Free Cons.prems show ?thesis by (simp add: free_foreign)
    next
      assume "lent pool p"
      then obtain idx where idx: "idx < buffer_count pool" "buffers pool idx = p" "\<not> slot_free pool idx"
        by (auto simp: lent_def)
      note k = free_lent_keeps [OF Cons.prems(1) Cons.prems(2) Cons.prems(3) idx(1) idx(3)]
      with Free idx(2) show ?thesis by simp
    qed
  qed
  have run: "snd (pool_run (c # cs) pool) = snd (pool_run cs ?p)"
    by (simp add: split_beta)
  from step Cons.prems(4) have "pool_wf ?p" "distinct_buffers ?p" "conserved (buffer_count ?p) ?p"
    "orderly cs ?p" by auto
  from Cons.IH [OF this] step show ?case
    unfolding run by auto
qed

text \<open>An \<open>allocate\<close> followed by the \<open>free\<close> of what it returned restores the bitmap.\<close>

lemma alloc_free_pair_bitmap:
  assumes wf: "pool_wf pool" and di: "distinct_buffers pool"
    and co: "conserved (buffer_count pool) pool"
    and al: "hev_memory_pool_alloc pool = (q, pool')"
  shows "free_bitmap (hev_memory_pool_free pool' q) = free_bitmap pool"
proof -
  have bir: "bits_in_range pool" and cnt: "buffer_count pool \<le> POOL_MAX_BUFFERS"
    using wf by (simp_all add: pool_wf_def)
  note k = alloc_keeps [OF wf co al]
  from alloc_cases [OF bir cnt] show ?thesis
  proof
    assume "bitmap_popcount pool = 0 \<and> hev_memory_pool_alloc pool = (0, pool)"
    with al show ?thesis by (simp add: free_null)
  next
    assume "\<exists>j. free_bitmap pool j \<noteq> 0 \<and> hev_memory_pool_alloc pool = claim_slot pool j"
    then obtain j where nz: "free_bitmap pool j \<noteq> 0"
      and cs: "hev_memory_pool_alloc pool = claim_slot pool j" by blast
    let ?x = "free_bitmap pool j"
    let ?b = "ffs ?x - 1"
    let ?idx = "j * 32 + ?b"
    have bit: "bit ?x ?b" and b32: "?b < 32"
      using ffs_nonzero [OF nz] by auto
    from al cs have "q = fst (claim_slot pool j)" and p': "pool' = snd (claim_slot pool j)"
      by simp_all
    then have q: "q = buffers pool ?idx"
      by (simp add: claim_slot_fields)
    have idx: "?idx < buffer_count pool"
      using bir bit by (simp add: bits_in_range_def)
    have dv: "?idx div 32 = j" "?idx mod 32 = ?b"
      using b32 by simp_all
    have di': "distinct_buffers pool'"
      using di k by (simp add: distinct_buffers_def)
    have bm': "free_bitmap pool' = (free_bitmap pool)(j := ?x AND NOT (push_bit ?b 1))"
      unfolding p' by (simp add: claim_slot_fields)
    have setback: "(?x AND NOT (push_bit ?b 1)) OR push_bit ?b 1 = ?x"
      by (rule bit_eqI) (use bit in \<open>auto simp: bit_or_iff bit_and_iff bit_not_iff bit_exp_iff\<close>)
    have "hev_memory_pool_free pool' (buffers pool' ?idx) =
       pool' \<lparr> free_bitmap := (free_bitmap pool')
               (?idx div 32 := free_bitmap pool' (?idx div 32) OR push_bit (?idx mod 32) 1),
            allocated := allocated pool' - 1 \<rparr>"
      using idx k by (intro free_slot [OF k(1) di']) simp
    then show ?thesis
      unfolding q k(4) [symmetric] dv bm' using setback by simp
  qed
qed

section \<open>Properties of the SPSC ring\<close>

lemma and_4095: "(x::nat) AND 4095 = x mod 4096"
proof -
  have "(4095::nat) = mask 12"
    by (simp add: mask_eq_exp_minus_1)
  then show ?thesis
    by (simp only: take_bit_eq_mask [symmetric] take_bit_eq_mod) simp
qed

lemma mod_window:
  fixes a b n :: nat
  assumes "a \<le> b" "b - a < n" "a mod n = b mod n"
  shows "a = b"
proof -
  from mod_eq_nat1E [OF assms(3) [symmetric] assms(1)]
  obtain q where q: "b = a + n * q" by blast
  with assms(2) have "n * q < n" by simp
  then have "q = 0" by simp
  with q show ?thesis by simp
qed

lemma mod_window_full:
  fixes a b n :: nat
  assumes "a \<le> b" "b - a < n"
  shows "((b + 1) mod n = a mod n) = (b - a = n - 1)"
proof
  assume "(b + 1) mod n = a mod n"
  moreover have "a \<le> b + 1" using assms(1) by simp
  ultimately obtain q where q: "b + 1 = a + n * q"
    by (rule mod_eq_nat1E)
  then have nq: "n * q = b + 1 - a" by simp
  have "0 < n * q" using nq assms by simp
  then have "0 < q" by (cases q) simp_all
  have "n * q \<le> n * 1" using nq assms by simp
  moreover have "0 < n" using assms(2) by simp
  ultimately have "q \<le> 1" by (simp only: mult_le_cancel1)
  with \<open>0 < q\<close> have "q = 1" by simp
  with q show "b - a = n - 1" by simp
next
  assume "b - a = n - 1"
  with assms have "b + 1 = a + n" by simp
  then show "(b + 1) mod n = a mod n" by simp
qed


lemma push_inv:
  assumes inv: "ring_inv rb pushed T CT CH"
  shows "\<exists>CT'. (if length pushed - T = 4095
            then hev_ring_buffer_push rb d = (- 1, rb \<lparr> cached_tail := tail rb \<rparr>) \<and>
                 ring_inv (snd (hev_ring_buffer_push rb d)) pushed T CT' CH
            else fst (hev_ring_buffer_push rb d) = 0 \<and>
                 ring_inv (snd (hev_ring_buffer_push rb d)) (pushed @ [d]) T CT' CH)"
proof -
  let ?H = "length pushed"
  from inv have m: "rb_mask rb = 4095" and h: "head rb = ?H mod 4096" and t: "tail rb = T mod 4096"
    and ct: "cached_tail rb = CT mod 4096" and ch: "cached_head rb = CH mod 4096"
    and ord: "CT \<le> T" "T \<le> CH" "CH \<le> ?H" "?H - CT < 4096"
    and buf: "\<forall>i. T \<le> i \<and> i < ?H \<longrightarrow> buffer rb (i mod 4096) = pushed ! i"
    by (simp_all add: ring_inv_def)
  have nxt: "Suc (head rb) AND rb_mask rb = Suc ?H mod 4096"
    by (simp add: m h and_4095 mod_simps)
  have c1: "(Suc ?H mod 4096 = CT mod 4096) = (?H - CT = 4095)"
    using mod_window_full [of CT ?H 4096] ord by simp
  have c2: "(Suc ?H mod 4096 = T mod 4096) = (?H - T = 4095)"
    using mod_window_full [of T ?H 4096] ord by simp
  have store: "ring_inv (rb' \<lparr> buffer := (buffer rb')(head rb := d), head := Suc ?H mod 4096 \<rparr>)
      (pushed @ [d]) T C CH"
    if r: "ring_inv rb' pushed T C CH" "?H - C < 4095" "buffer rb' = buffer rb" for rb' C
  proof -
    have "buffer rb' (i mod 4096) = pushed ! i \<and> i mod 4096 \<noteq> ?H mod 4096"
      if i: "T \<le> i" "i < ?H" for i
    proof -
      have "?H - i < 4096"
        using i ord by linarith
      then have "i mod 4096 \<noteq> ?H mod 4096"
        using mod_window [of i ?H 4096] i by auto
      with buf i r(3) show ?thesis by simp
    qed
    then have "\<forall>i. T \<le> i \<and> i < length (pushed @ [d]) \<longrightarrow>
        ((buffer rb')(head rb := d)) (i mod 4096) = (pushed @ [d]) ! i"
      by (auto simp: h nth_append less_Suc_eq)
    with r(1,2) ord show ?thesis
      by (simp add: ring_inv_def)
  qed
  show ?thesis
  proof (cases "?H - CT = 4095")
    case full1: True
    let ?rb1 = "rb \<lparr> cached_tail := tail rb \<rparr>"
    have inv1: "ring_inv ?rb1 pushed T T CH"
      using inv ord by (simp add: ring_inv_def)
    show ?thesis
    proof (cases "?H - T = 4095")
      case True
      then have "hev_ring_buffer_push rb d = (- 1, ?rb1)"
        using full1 by (simp add: hev_ring_buffer_push_def Let_def nxt c1 c2 ct t)
      with inv1 True show ?thesis by auto
    next
      case False
      then have lt: "?H - T < 4095" using ord by simp
      have "hev_ring_buffer_push rb d =
          (0, ?rb1 \<lparr> buffer := (buffer ?rb1)(head rb := d), head := Suc ?H mod 4096 \<rparr>)"
        using full1 False by (simp add: hev_ring_buffer_push_def Let_def nxt c1 c2 ct t)
      moreover have "ring_inv (?rb1 \<lparr> buffer := (buffer ?rb1)(head rb := d), head := Suc ?H mod 4096 \<rparr>)
          (pushed @ [d]) T T CH"
        by (rule store [OF inv1 lt]) simp
      ultimately show ?thesis using False by auto
    qed
  next
    case False
    then have lt: "?H - CT < 4095" using ord by simp
    then have nf: "?H - T \<noteq> 4095" using ord by simp
    have "hev_ring_buffer_push rb d =
        (0, rb \<lparr> buffer := (buffer rb)(head rb := d), head := Suc ?H mod 4096 \<rparr>)"
      using False by (simp add: hev_ring_buffer_push_def Let_def nxt c1 ct)
    moreover have "ring_inv (rb \<lparr> buffer := (buffer rb)(head rb := d), head := Suc ?H mod 4096 \<rparr>)
          (pushed @ [d]) T CT CH"
      by (rule store [OF inv lt]) simp
    ultimately show ?thesis using nf by auto
  qed
qed


lemma pop_inv:
  assumes inv: "ring_inv rb pushed T CT CH"
  shows "\<exists>CH'. (if T = length pushed
            then fst (hev_ring_buffer_pop rb) = NULL \<and>
                 ring_inv (snd (hev_ring_buffer_pop rb)) pushed T CT CH'
            else fst (hev_ring_buffer_pop rb) = pushed ! T \<and>
                 ring_inv (snd (hev_ring_buffer_pop rb)) pushed (Suc T) CT CH')"
proof -
  let ?H = "length pushed"
  from inv have m: "rb_mask rb = 4095" and h: "head rb = ?H mod 4096" and t: "tail rb = T mod 4096"
    and ct: "cached_tail rb = CT mod 4096" and ch: "cached_head rb = CH mod 4096"
    and ord: "CT \<le> T" "T \<le> CH" "CH \<le> ?H" "?H - CT < 4096"
    and buf: "\<forall>i. T \<le> i \<and> i < ?H \<longrightarrow> buffer rb (i mod 4096) = pushed ! i"
    by (simp_all add: ring_inv_def)
  have nxt: "Suc (tail rb) AND rb_mask rb = Suc T mod 4096"
    by (simp add: m t and_4095 mod_simps)
  have "CH - T < 4096" "?H - T < 4096"
    using ord by linarith+
  then have c1: "(T mod 4096 = CH mod 4096) = (T = CH)"
    and c2: "(T mod 4096 = ?H mod 4096) = (T = ?H)"
    using mod_window [of T CH 4096] mod_window [of T ?H 4096] ord by auto
  have take: "ring_inv (rb' \<lparr> tail := Suc T mod 4096 \<rparr>) pushed (Suc T) CT C \<and>
      buffer rb' (tail rb) = pushed ! T"
    if r: "ring_inv rb' pushed T CT C" "T < C" "buffer rb' = buffer rb" for rb' C
  proof -
    from r(1,2) have "T < ?H"
      by (simp add: ring_inv_def)
    with buf r(3) have "buffer rb' (tail rb) = pushed ! T"
      by (simp add: t)
    moreover from r(1,2) have "ring_inv (rb' \<lparr> tail := Suc T mod 4096 \<rparr>) pushed (Suc T) CT C"
      by (simp add: ring_inv_def)
    ultimately show ?thesis by simp
  qed
  show ?thesis
  proof (cases "T = CH")
    case same: True
    then have e1: "tail rb = cached_head rb"
      by (simp add: t ch)
    let ?rb1 = "rb \<lparr> cached_head := head rb \<rparr>"
    have inv1: "ring_inv ?rb1 pushed T CT ?H"
      using inv ord by (simp add: ring_inv_def)
    show ?thesis
    proof (cases "T = ?H")
      case True
      then have "tail rb = head rb"
        by (simp add: t h)
      then have "hev_ring_buffer_pop rb = (NULL, ?rb1)"
        by (simp add: hev_ring_buffer_pop_def Let_def e1 [symmetric])
      with inv1 True show ?thesis by auto
    next
      case False
      then have lt: "T < ?H" using ord by simp
      from False have e2: "tail rb \<noteq> head rb"
        using c2 by (simp add: t h)
      have "hev_ring_buffer_pop rb =
          (buffer ?rb1 (tail rb), ?rb1 \<lparr> tail := Suc T mod 4096 \<rparr>)"
        by (simp add: hev_ring_buffer_pop_def Let_def nxt e1 [symmetric] e2)
      moreover have "ring_inv (?rb1 \<lparr> tail := Suc T mod 4096 \<rparr>) pushed (Suc T) CT ?H \<and>
          buffer ?rb1 (tail rb) = pushed ! T"
        by (rule take [OF inv1 lt]) simp
      ultimately show ?thesis using False by auto
    qed
  next
    case False
    then have lt: "T < CH" using ord by simp
    then have ne: "T \<noteq> ?H" using ord by simp
    from False have e1: "tail rb \<noteq> cached_head rb"
      using c1 by (simp add: t ch)
    have "hev_ring_buffer_pop rb = (buffer rb (tail rb), rb \<lparr> tail := Suc T mod 4096 \<rparr>)"
      by (simp add: hev_ring_buffer_pop_def Let_def nxt e1)
    moreover have "ring_inv (rb \<lparr> tail := Suc T mod 4096 \<rparr>) pushed (Suc T) CT CH \<and>
          buffer rb (tail rb) = pushed ! T"
      by (rule take [OF inv lt]) simp
    ultimately show ?thesis using ne by auto
  qed
qed

lemma full_iff:
  assumes inv: "ring_inv rb pushed T CT CH"
  shows "ring_full rb = (length pushed - T = 4095)"
proof -
  from inv have m: "rb_mask rb = 4095" and h: "head rb = length pushed mod 4096"
    and t: "tail rb = T mod 4096"
    and ord: "CT \<le> T" "T \<le> CH" "CH \<le> length pushed" "length pushed - CT < 4096"
    by (simp_all add: ring_inv_def)
  have "(head rb + 1) AND rb_mask rb = (length pushed + 1) mod 4096"
    by (simp add: m h and_4095 mod_simps)
  moreover have "((length pushed + 1) mod 4096 = T mod 4096) = (length pushed - T = 4095)"
    using mod_window_full [of T "length pushed" 4096] ord by simp
  ultimately show ?thesis
    by (simp add: t ring_full_def)
qed

lemma fresh_ring_inv: "ring_inv fresh_ring [] 0 0 0"
  by (simp add: ring_inv_def fresh_ring_def RING_BUFFER_SIZE_def)


lemma empty_iff:
  assumes inv: "ring_inv rb pushed T CT CH"
  shows "(tail rb = cached_head rb \<and> tail rb = head rb) = (T = length pushed)"
proof -
  from inv have h: "head rb = length pushed mod 4096" and t: "tail rb = T mod 4096"
    and ch: "cached_head rb = CH mod 4096"
    and ord: "CT \<le> T" "T \<le> CH" "CH \<le> length pushed" "length pushed - CT < 4096"
    by (simp_all add: ring_inv_def)
  have "length pushed - T < 4096"
    using ord by linarith
  then have "(T mod 4096 = length pushed mod 4096) = (T = length pushed)"
    using mod_window [of T "length pushed" 4096] ord by auto
  moreover have "T = length pushed \<Longrightarrow> CH = T"
    using ord by simp
  ultimately show ?thesis
    by (auto simp: h t ch)
qed

lemma ring_exec_append:
  "ring_exec (as @ bs) s = (case ring_exec as s of None \<Rightarrow> None | Some s' \<Rightarrow> ring_exec bs s')"
  by (induction as arbitrary: s) (simp_all split: option.splits)

text \<open>
  The steps of one call, taken with no step of the other thread between, do what
  the function does when it is called alone.
\<close>

lemma push_call_eq:
  assumes "rs_producer s = P_Idle"
  shows "ring_exec (push_call d) s =
     Some (s \<lparr> rs_rb := snd (hev_ring_buffer_push (rs_rb s) d),
               rs_pushes := rs_pushes s @
                 [(d, fst (hev_ring_buffer_push (rs_rb s) d), ring_full (rs_rb s))] \<rparr>)"
  using assms
  by (cases s)
    (simp add: push_call_def call_push_def producer_step_def hev_ring_buffer_push_def Let_def
      ring_full_def)

lemma pop_call_eq:
  assumes "rs_consumer s = C_Idle"
  shows "ring_exec pop_call s =
     Some (s \<lparr> rs_rb := snd (hev_ring_buffer_pop (rs_rb s)),
               rs_pops := rs_pops s @
                 [(fst (hev_ring_buffer_pop (rs_rb s)),
                   \<not> (tail (rs_rb s) = cached_head (rs_rb s) \<and> tail (rs_rb s) = head (rs_rb s)))] \<rparr>)"
  using assms
  by (cases s)
    (auto simp add: pop_call_def call_pop_def consumer_step_def hev_ring_buffer_pop_def Let_def)

lemma ring_sys_invI:
  assumes "rb_mask (rs_rb s) = 4095"
    and "head (rs_rb s) = published s mod 4096" and "tail (rs_rb s) = taken s mod 4096"
    and "cached_tail (rs_rb s) = CT mod 4096" and "cached_head (rs_rb s) = CH mod 4096"
    and "CT \<le> taken s" and "taken s \<le> CH" and "CH \<le> published s"
    and "published s - CT < 4096" and "published s \<le> length (accepted s)"
    and "\<And>i. taken s \<le> i \<Longrightarrow> i < published s \<Longrightarrow>
           buffer (rs_rb s) (i mod 4096) = accepted s ! i"
    and "producer_inv s CT" and "consumer_inv s CH" and "log_inv s"
  shows "ring_sys_inv s CT CH"
  using assms by (simp add: ring_sys_inv_def ring_inv_def min_absorb2)

lemma ring_sys_invD:
  assumes "ring_sys_inv s CT CH"
  shows "rb_mask (rs_rb s) = 4095"
    and "head (rs_rb s) = published s mod 4096" and "tail (rs_rb s) = taken s mod 4096"
    and "cached_tail (rs_rb s) = CT mod 4096" and "cached_head (rs_rb s) = CH mod 4096"
    and "CT \<le> taken s" and "taken s \<le> CH" and "CH \<le> published s"
    and "published s - CT < 4096" and "published s \<le> length (accepted s)"
    and "\<And>i. taken s \<le> i \<Longrightarrow> i < published s \<Longrightarrow>
           buffer (rs_rb s) (i mod 4096) = accepted s ! i"
    and "producer_inv s CT" and "consumer_inv s CH" and "log_inv s"
proof -
  from assms have le: "published s \<le> length (accepted s)"
    by (simp add: ring_sys_inv_def)
  from assms have r: "ring_inv (rs_rb s) (take (published s) (accepted s)) (taken s) CT CH"
    by (simp add: ring_sys_inv_def)
  from r le show "rb_mask (rs_rb s) = 4095"
    and "head (rs_rb s) = published s mod 4096" and "tail (rs_rb s) = taken s mod 4096"
    and "cached_tail (rs_rb s) = CT mod 4096" and "cached_head (rs_rb s) = CH mod 4096"
    and "CT \<le> taken s" and "taken s \<le> CH" and "CH \<le> published s"
    and "published s - CT < 4096"
    by (simp_all add: ring_inv_def min_absorb2)
  show "published s \<le> length (accepted s)" by (rule le)
  from assms show "producer_inv s CT" and "consumer_inv s CH" and "log_inv s"
    by (simp_all add: ring_sys_inv_def)
  fix i
  assume "taken s \<le> i" "i < published s"
  with r le show "buffer (rs_rb s) (i mod 4096) = accepted s ! i"
    by (simp add: ring_inv_def min_absorb2)
qed

lemma ring_sys_full_iff:
  assumes "ring_sys_inv s CT CH"
  shows "ring_full (rs_rb s) = (published s - taken s = 4095)"
  using full_iff [of "rs_rb s" "take (published s) (accepted s)" "taken s" CT CH] assms
  by (simp add: ring_sys_inv_def min_absorb2)

lemma log_inv_push:
  assumes "log_inv s" "r = 0 \<or> r = - 1" "(r = - 1) = f" "taken s \<le> length (accepted s)"
    "rs_pops s' = rs_pops s" "rs_pushes s' = rs_pushes s @ [(d, r, f)]"
  shows "log_inv s'"
  using assms by (auto simp: log_inv_def accepted_def taken_def)

lemma consumer_inv_keep:
  assumes "consumer_inv s CH" "rs_consumer s' = rs_consumer s"
    "tail (rs_rb s') = tail (rs_rb s)" "taken s' = taken s"
    "taken s < CH \<Longrightarrow> accepted s' ! taken s = accepted s ! taken s"
  shows "consumer_inv s' CH"
  using assms by (cases "rs_consumer s") (auto simp: consumer_inv_def)

lemma producer_inv_keep:
  assumes "producer_inv s CT" "rs_producer s' = rs_producer s"
    "head (rs_rb s') = head (rs_rb s)" "accepted s' = accepted s"
    "buffer (rs_rb s') (head (rs_rb s)) = buffer (rs_rb s) (head (rs_rb s))"
  shows "producer_inv s' CT"
proof -
  from assms(2,4) have "published s' = published s"
    by (simp add: published_def)
  with assms show ?thesis
    by (cases "rs_producer s") (auto simp: producer_inv_def)
qed

lemma call_push_inv:
  assumes inv: "ring_sys_inv s CT CH" and step: "call_push d s = Some s'"
  shows "ring_sys_inv s' CT CH"
proof -
  note f = ring_sys_invD [OF inv]
  from step have idle: "rs_producer s = P_Idle"
    by (cases "rs_producer s") (simp_all add: call_push_def)
  then have pub: "published s = length (accepted s)"
    by (simp add: published_def)
  have nxt: "Suc (head (rs_rb s)) AND rb_mask (rs_rb s) = Suc (published s) mod 4096"
    by (simp add: f(1,2) and_4095 mod_simps)
  have c1: "(Suc (published s) mod 4096 = CT mod 4096) = (published s - CT = 4095)"
    using mod_window_full [of CT "published s" 4096] f by simp
  have TA: "taken s \<le> length (accepted s)"
    using f by linarith
  show ?thesis
  proof (cases "published s - CT = 4095")
    case True
    with step idle have s': "s' = s \<lparr> rs_producer := P_Reload d (head (rs_rb s)) \<rparr>"
      by (simp add: call_push_def Let_def nxt c1 f(4))
    have e: "accepted s' = accepted s" "taken s' = taken s" "published s' = published s"
      "rs_rb s' = rs_rb s"
      using idle by (simp_all add: s' accepted_def taken_def published_def)
    show ?thesis
    proof (rule ring_sys_invI)
      show "producer_inv s' CT"
        by (simp add: producer_inv_def s')
      show "consumer_inv s' CH"
        by (rule consumer_inv_keep [OF f(13)]) (simp_all add: e, simp add: s')
      show "log_inv s'"
        using f(14) by (simp add: log_inv_def e) (simp add: s')
    qed (use f in \<open>simp_all add: e\<close>)
  next
    case False
    then have lt: "published s - CT < 4095"
      using f(9) by simp
    then have nf: "\<not> ring_full (rs_rb s)"
      using ring_sys_full_iff [OF inv] f by simp
    from step idle False have s': "s' = s \<lparr> rs_producer := P_Store d (head (rs_rb s)),
        rs_pushes := rs_pushes s @ [(d, 0, ring_full (rs_rb s))] \<rparr>"
      by (simp add: call_push_def Let_def nxt c1 f(4))
    have e: "accepted s' = accepted s @ [d]" "taken s' = taken s" "published s' = published s"
      "rs_rb s' = rs_rb s"
      by (simp_all add: s' accepted_def taken_def published_def idle)
    show ?thesis
    proof (rule ring_sys_invI)
      show "producer_inv s' CT"
        using lt by (simp add: producer_inv_def e) (simp add: s')
      show "consumer_inv s' CH"
        by (rule consumer_inv_keep [OF f(13)])
          (use f(8) pub in \<open>simp_all add: e nth_append\<close>, simp add: s')
      show "log_inv s'"
        by (rule log_inv_push [OF f(14) _ _ TA, of 0 False]) (use nf in \<open>simp_all add: s'\<close>)
      fix i
      assume "taken s' \<le> i" "i < published s'"
      then show "buffer (rs_rb s') (i mod 4096) = accepted s' ! i"
        using f(11) [of i] pub by (simp add: e nth_append)
    qed (use f in \<open>simp_all add: e\<close>)
  qed
qed

lemma producer_step_inv:
  assumes inv: "ring_sys_inv s CT CH" and step: "producer_step s = Some s'"
  shows "\<exists>CT'. ring_sys_inv s' CT' CH"
proof -
  note f = ring_sys_invD [OF inv]
  have TA: "taken s \<le> length (accepted s)"
    using f by linarith
  show ?thesis
  proof (cases "rs_producer s")
    case P_Idle
    with step have "s' = s"
      by (simp add: producer_step_def)
    with inv show ?thesis by blast
  next
    case (P_Reload d h)
    then have pub: "published s = length (accepted s)"
      by (simp add: published_def)
    from f(12) P_Reload have h: "h = head (rs_rb s)"
      by (simp add: producer_inv_def)
    have nxt: "Suc (head (rs_rb s)) AND rb_mask (rs_rb s) = Suc (published s) mod 4096"
      by (simp add: f(1,2) and_4095 mod_simps)
    have gap: "published s - taken s < 4096"
      using f by linarith
    have c2: "(Suc (published s) mod 4096 = taken s mod 4096) = (published s - taken s = 4095)"
      using mod_window_full [of "taken s" "published s" 4096] f gap by simp
    note full = ring_sys_full_iff [OF inv]
    let ?rb1 = "rs_rb s \<lparr> cached_tail := tail (rs_rb s) \<rparr>"
    show ?thesis
    proof (cases "published s - taken s = 4095")
      case True
      with step P_Reload have s': "s' = s \<lparr> rs_rb := ?rb1, rs_producer := P_Idle,
          rs_pushes := rs_pushes s @ [(d, - 1, ring_full (rs_rb s))] \<rparr>"
        by (simp add: producer_step_def Let_def h nxt c2 f(3))
      have e: "accepted s' = accepted s" "taken s' = taken s" "published s' = published s"
        "rs_rb s' = ?rb1"
        by (simp_all add: s' accepted_def taken_def published_def P_Reload)
      have "ring_sys_inv s' (taken s) CH"
      proof (rule ring_sys_invI)
        show "producer_inv s' (taken s)"
          by (simp add: producer_inv_def s')
        show "consumer_inv s' CH"
          by (rule consumer_inv_keep [OF f(13)]) (simp_all add: e, simp add: s')
        show "log_inv s'"
          by (rule log_inv_push [OF f(14) _ _ TA, of "- 1" True])
            (use True full in \<open>simp_all add: s'\<close>)
      qed (use f gap in \<open>simp_all add: e\<close>)
      then show ?thesis ..
    next
      case False
      with gap have lt: "published s - taken s < 4095"
        by simp
      from step P_Reload False have s': "s' = s \<lparr> rs_rb := ?rb1, rs_producer := P_Store d h,
          rs_pushes := rs_pushes s @ [(d, 0, ring_full (rs_rb s))] \<rparr>"
        by (simp add: producer_step_def Let_def h nxt c2 f(3))
      have e: "accepted s' = accepted s @ [d]" "taken s' = taken s" "published s' = published s"
        "rs_rb s' = ?rb1"
        by (simp_all add: s' accepted_def taken_def published_def P_Reload)
      have "ring_sys_inv s' (taken s) CH"
      proof (rule ring_sys_invI)
        show "producer_inv s' (taken s)"
          using lt by (simp add: producer_inv_def e) (simp add: s' h)
        show "consumer_inv s' CH"
          by (rule consumer_inv_keep [OF f(13)])
            (use f(8) pub in \<open>simp_all add: e nth_append\<close>, simp add: s')
        show "log_inv s'"
          by (rule log_inv_push [OF f(14) _ _ TA, of 0 False])
            (use False full in \<open>simp_all add: s'\<close>)
        fix i
        assume "taken s' \<le> i" "i < published s'"
        then show "buffer (rs_rb s') (i mod 4096) = accepted s' ! i"
          using f(11) [of i] pub by (simp add: e nth_append)
      qed (use f gap in \<open>simp_all add: e\<close>)
      then show ?thesis ..
    qed
  next
    case (P_Store d h)
    from f(12) P_Store have p: "h = head (rs_rb s)" "accepted s \<noteq> []" "last (accepted s) = d"
      "published s - CT < 4095"
      by (auto simp: producer_inv_def)
    from step P_Store have s': "s' = s \<lparr> rs_rb := rs_rb s \<lparr> buffer := (buffer (rs_rb s))(h := d) \<rparr>,
        rs_producer := P_Publish d h \<rparr>"
      by (simp add: producer_step_def Let_def)
    have e: "accepted s' = accepted s" "taken s' = taken s" "published s' = published s"
      "rs_rb s' = rs_rb s \<lparr> buffer := (buffer (rs_rb s))(h := d) \<rparr>"
      by (simp_all add: s' accepted_def taken_def published_def P_Store)
    have "ring_sys_inv s' CT CH"
    proof (rule ring_sys_invI)
      show "producer_inv s' CT"
        using p by (simp add: producer_inv_def e) (simp add: s')
      show "consumer_inv s' CH"
        by (rule consumer_inv_keep [OF f(13)]) (simp_all add: e, simp add: s')
      show "log_inv s'"
        using f(14) by (simp add: log_inv_def e) (simp add: s')
      fix i
      assume i: "taken s' \<le> i" "i < published s'"
      then have "published s - i < 4096"
        using f by (simp add: e)
      then have "i mod 4096 \<noteq> published s mod 4096"
        using mod_window [of i "published s" 4096] i by (auto simp: e)
      then show "buffer (rs_rb s') (i mod 4096) = accepted s' ! i"
        using f(11) [of i] i by (simp add: e p(1) f(2))
    qed (use f in \<open>simp_all add: e\<close>)
    then show ?thesis ..
  next
    case (P_Publish d h)
    from f(12) P_Publish have p: "h = head (rs_rb s)" "accepted s \<noteq> []" "last (accepted s) = d"
      "published s - CT < 4095" "buffer (rs_rb s) h = d"
      by (auto simp: producer_inv_def)
    from p(2) have len: "length (accepted s) = Suc (published s)"
      by (cases "accepted s") (simp_all add: published_def P_Publish)
    have nxt: "Suc (head (rs_rb s)) AND rb_mask (rs_rb s) = Suc (published s) mod 4096"
      by (simp add: f(1,2) and_4095 mod_simps)
    from step P_Publish have s': "s' = s \<lparr> rs_rb := rs_rb s \<lparr> head := Suc (published s) mod 4096 \<rparr>,
        rs_producer := P_Idle \<rparr>"
      by (simp add: producer_step_def Let_def p(1) nxt)
    have e: "accepted s' = accepted s" "taken s' = taken s" "published s' = Suc (published s)"
      "rs_rb s' = rs_rb s \<lparr> head := Suc (published s) mod 4096 \<rparr>"
      using len by (simp_all add: s' accepted_def taken_def published_def P_Publish)
    have lastE: "accepted s ! published s = d"
      using p(2,3) len by (simp add: last_conv_nth)
    have "ring_sys_inv s' CT CH"
    proof (rule ring_sys_invI)
      show "producer_inv s' CT"
        by (simp add: producer_inv_def s')
      show "consumer_inv s' CH"
        by (rule consumer_inv_keep [OF f(13)]) (simp_all add: e, simp add: s')
      show "log_inv s'"
        using f(14) by (simp add: log_inv_def e) (simp add: s')
      show "published s' - CT < 4096"
        using p(4) f by (simp add: e)
      fix i
      assume i: "taken s' \<le> i" "i < published s'"
      show "buffer (rs_rb s') (i mod 4096) = accepted s' ! i"
      proof (cases "i = published s")
        case True
        then show ?thesis
          using p(5) lastE by (simp add: e p(1) f(2))
      next
        case False
        with i f(11) [of i] show ?thesis
          by (simp add: e)
      qed
    qed (use f len in \<open>simp_all add: e\<close>)
    then show ?thesis ..
  qed
qed

lemma log_inv_keep:
  assumes "log_inv s" "rs_pushes s' = rs_pushes s" "rs_pops s' = rs_pops s"
  shows "log_inv s'"
  using assms by (simp add: log_inv_def accepted_def taken_def)

lemma call_pop_inv:
  assumes inv: "ring_sys_inv s CT CH" and step: "call_pop s = Some s'"
  shows "ring_sys_inv s' CT CH"
proof -
  note f = ring_sys_invD [OF inv]
  from step have idle: "rs_consumer s = C_Idle"
    by (cases "rs_consumer s") (simp_all add: call_pop_def)
  have "CH - taken s < 4096"
    using f by linarith
  then have c1: "(taken s mod 4096 = CH mod 4096) = (taken s = CH)"
    using mod_window [of "taken s" CH 4096] f by auto
  define pc where "pc = (if taken s = CH then C_Reload (tail (rs_rb s)) else C_Load (tail (rs_rb s)))"
  have s': "s' = s \<lparr> rs_consumer := pc \<rparr>"
    using step idle by (auto simp: call_pop_def Let_def f(3,5) c1 pc_def split: if_splits)
  note pc = pc_def
  have e: "accepted s' = accepted s" "taken s' = taken s" "published s' = published s"
    "rs_rb s' = rs_rb s"
    by (simp_all add: s' accepted_def taken_def published_def)
  show ?thesis
  proof (rule ring_sys_invI)
    show "producer_inv s' CT"
      by (rule producer_inv_keep [OF f(12)]) (simp_all add: e, simp add: s')
    show "consumer_inv s' CH"
      using f(7) by (simp add: consumer_inv_def e) (simp add: s' pc)
    show "log_inv s'"
      by (rule log_inv_keep [OF f(14)]) (simp_all add: s')
  qed (use f in \<open>simp_all add: e\<close>)
qed

lemma consumer_step_inv:
  assumes inv: "ring_sys_inv s CT CH" and step: "consumer_step s = Some s'"
  shows "\<exists>CH'. ring_sys_inv s' CT CH'"
proof -
  note f = ring_sys_invD [OF inv]
  have TA: "taken s \<le> length (accepted s)"
    using f by linarith
  show ?thesis
  proof (cases "rs_consumer s")
    case C_Idle
    with step have "s' = s"
      by (simp add: consumer_step_def)
    with inv show ?thesis by blast
  next
    case (C_Reload t)
    from f(13) C_Reload have t: "t = tail (rs_rb s)"
      by (simp add: consumer_inv_def)
    have TE: "taken s \<le> published s"
      using f by linarith
    have "published s - taken s < 4096"
      using f by linarith
    then have c2: "(taken s mod 4096 = published s mod 4096) = (taken s = published s)"
      using mod_window [of "taken s" "published s" 4096] TE by auto
    let ?rb1 = "rs_rb s \<lparr> cached_head := head (rs_rb s) \<rparr>"
    show ?thesis
    proof (cases "taken s = published s")
      case True
      with step C_Reload have s': "s' = s \<lparr> rs_rb := ?rb1, rs_consumer := C_Idle,
          rs_pops := rs_pops s @ [(NULL, False)] \<rparr>"
        by (simp add: consumer_step_def Let_def t f(2,3))
      have e: "accepted s' = accepted s" "taken s' = taken s" "published s' = published s"
        "rs_rb s' = ?rb1"
        by (simp_all add: s' accepted_def taken_def published_def)
      have "ring_sys_inv s' CT (published s)"
      proof (rule ring_sys_invI)
        show "producer_inv s' CT"
          by (rule producer_inv_keep [OF f(12)]) (simp_all add: e, simp add: s')
        show "consumer_inv s' (published s)"
          by (simp add: consumer_inv_def s')
        show "log_inv s'"
          using f(14) by (simp add: log_inv_def e) (simp add: s' taken_def)
      qed (use f TE in \<open>simp_all add: e\<close>)
      then show ?thesis ..
    next
      case False
      with step C_Reload have s': "s' = s \<lparr> rs_rb := ?rb1, rs_consumer := C_Load t \<rparr>"
        by (simp add: consumer_step_def Let_def t f(2,3) c2)
      have e: "accepted s' = accepted s" "taken s' = taken s" "published s' = published s"
        "rs_rb s' = ?rb1"
        by (simp_all add: s' accepted_def taken_def published_def)
      have "ring_sys_inv s' CT (published s)"
      proof (rule ring_sys_invI)
        show "producer_inv s' CT"
          by (rule producer_inv_keep [OF f(12)]) (simp_all add: e, simp add: s')
        show "consumer_inv s' (published s)"
          using False TE by (simp add: consumer_inv_def e) (simp add: s' t)
        show "log_inv s'"
          by (rule log_inv_keep [OF f(14)]) (simp_all add: s')
      qed (use f TE in \<open>simp_all add: e\<close>)
      then show ?thesis ..
    qed
  next
    case (C_Load t)
    from f(13) C_Load have c: "t = tail (rs_rb s)" "taken s < CH"
      by (auto simp: consumer_inv_def)
    from step C_Load have s': "s' = s \<lparr> rs_consumer := C_Publish t (buffer (rs_rb s) t) \<rparr>"
      by (simp add: consumer_step_def Let_def)
    have e: "accepted s' = accepted s" "taken s' = taken s" "published s' = published s"
      "rs_rb s' = rs_rb s"
      by (simp_all add: s' accepted_def taken_def published_def)
    have rd: "buffer (rs_rb s) t = accepted s ! taken s"
      using f(11) [of "taken s"] c f(8) by (simp add: f(3))
    have "ring_sys_inv s' CT CH"
    proof (rule ring_sys_invI)
      show "producer_inv s' CT"
        by (rule producer_inv_keep [OF f(12)]) (simp_all add: e, simp add: s')
      show "consumer_inv s' CH"
        using c rd by (simp add: consumer_inv_def e) (simp add: s')
      show "log_inv s'"
        by (rule log_inv_keep [OF f(14)]) (simp_all add: s')
    qed (use f in \<open>simp_all add: e\<close>)
    then show ?thesis ..
  next
    case (C_Publish t d)
    from f(13) C_Publish have c: "t = tail (rs_rb s)" "taken s < CH" "d = accepted s ! taken s"
      by (auto simp: consumer_inv_def)
    have nxt: "Suc (tail (rs_rb s)) AND rb_mask (rs_rb s) = Suc (taken s) mod 4096"
      by (simp add: f(1,3) and_4095 mod_simps)
    from step C_Publish have s': "s' = s \<lparr> rs_rb := rs_rb s \<lparr> tail := Suc (taken s) mod 4096 \<rparr>,
        rs_consumer := C_Idle, rs_pops := rs_pops s @ [(d, True)] \<rparr>"
      by (simp add: consumer_step_def Let_def c(1) nxt)
    have e: "accepted s' = accepted s" "taken s' = Suc (taken s)" "published s' = published s"
      "rs_rb s' = rs_rb s \<lparr> tail := Suc (taken s) mod 4096 \<rparr>"
      by (simp_all add: s' accepted_def taken_def published_def)
    have lt: "taken s < length (accepted s)"
      using c(2) f by linarith
    have "ring_sys_inv s' CT CH"
    proof (rule ring_sys_invI)
      show "producer_inv s' CT"
        by (rule producer_inv_keep [OF f(12)]) (simp_all add: e, simp add: s')
      show "consumer_inv s' CH"
        by (simp add: consumer_inv_def s')
      show "log_inv s'"
        using f(14) lt c(3)
        by (simp add: log_inv_def e) (simp add: s' taken_def take_Suc_conv_app_nth)
      fix i
      assume "taken s' \<le> i" "i < published s'"
      then show "buffer (rs_rb s') (i mod 4096) = accepted s' ! i"
        using f(11) [of i] by (simp add: e)
    qed (use f c in \<open>simp_all add: e\<close>)
    then show ?thesis ..
  qed
qed

lemma ring_started_inv: "ring_sys_inv ring_started 0 0"
  by (rule ring_sys_invI)
    (simp_all add: ring_started_def fresh_ring_def RING_BUFFER_SIZE_def published_def
      accepted_def taken_def producer_inv_def consumer_inv_def log_inv_def)

lemma ring_step_inv:
  assumes "ring_sys_inv s CT CH" "ring_step a s = Some s'"
  shows "\<exists>CT' CH'. ring_sys_inv s' CT' CH'"
proof (cases a)
  case (Call_Push d)
  with assms call_push_inv [of s CT CH d s'] show ?thesis by auto
next
  case Producer_Step
  with assms producer_step_inv [of s CT CH s'] show ?thesis by auto
next
  case Call_Pop
  with assms call_pop_inv [of s CT CH s'] show ?thesis by auto
next
  case Consumer_Step
  with assms consumer_step_inv [of s CT CH s'] show ?thesis by auto
qed

lemma ring_exec_inv:
  assumes "ring_exec acts s = Some s'" "ring_sys_inv s CT CH"
  shows "\<exists>CT' CH'. ring_sys_inv s' CT' CH'"
  using assms
proof (induction acts arbitrary: s CT CH)
  case Nil
  then show ?case by auto
next
  case (Cons a acts)
  from Cons.prems(1) obtain s1 where s1: "ring_step a s = Some s1" "ring_exec acts s1 = Some s'"
    by (auto split: option.splits)
  from ring_step_inv [OF Cons.prems(2) s1(1)] obtain CT1 CH1 where "ring_sys_inv s1 CT1 CH1"
    by blast
  from Cons.IH [OF s1(2) this] show ?case .
qed

lemma push_calls:
  assumes "ring_inv (rs_rb s) pushed T CT CH" "length pushed - T + length ds \<le> 4095"
    "rs_producer s = P_Idle"
  shows "\<exists>rb' CT'. ring_exec (concat (map push_call ds)) s =
           Some (s \<lparr> rs_rb := rb', rs_pushes := rs_pushes s @ map (\<lambda>x. (x, 0, False)) ds \<rparr>) \<and>
           ring_inv rb' (pushed @ ds) T CT' CH"
  using assms
proof (induction ds arbitrary: s pushed CT)
  case Nil
  then show ?case
    by (intro exI [of _ "rs_rb s"] exI [of _ CT]) simp
next
  case (Cons d ds)
  let ?rb = "rs_rb s"
  let ?s1 = "s \<lparr> rs_rb := snd (hev_ring_buffer_push ?rb d),
      rs_pushes := rs_pushes s @ [(d, fst (hev_ring_buffer_push ?rb d), ring_full ?rb)] \<rparr>"
  from Cons.prems(2) have nf: "length pushed - T \<noteq> 4095" by simp
  have TH: "T \<le> length pushed"
    using Cons.prems(1) by (simp add: ring_inv_def)
  from push_inv [OF Cons.prems(1), of d] nf obtain CT1 where
    pi: "fst (hev_ring_buffer_push ?rb d) = 0"
      "ring_inv (snd (hev_ring_buffer_push ?rb d)) (pushed @ [d]) T CT1 CH"
    by auto
  from full_iff [OF Cons.prems(1)] nf have nfull: "\<not> ring_full ?rb" by simp
  have inv1: "ring_inv (rs_rb ?s1) (pushed @ [d]) T CT1 CH"
    using pi(2) by simp
  from Cons.prems(2) TH have len: "length (pushed @ [d]) - T + length ds \<le> 4095"
    by simp
  have idle1: "rs_producer ?s1 = P_Idle"
    using Cons.prems(3) by simp
  from Cons.IH [OF inv1 len idle1] obtain rb' CT' where
    run: "ring_exec (concat (map push_call ds)) ?s1 =
       Some (?s1 \<lparr> rs_rb := rb', rs_pushes := rs_pushes ?s1 @ map (\<lambda>x. (x, 0, False)) ds \<rparr>)"
    and inv': "ring_inv rb' ((pushed @ [d]) @ ds) T CT' CH" by blast
  have "ring_exec (concat (map push_call (d # ds))) s =
      Some (s \<lparr> rs_rb := rb', rs_pushes := rs_pushes s @ map (\<lambda>x. (x, 0, False)) (d # ds) \<rparr>)"
    using run by (simp add: ring_exec_append push_call_eq [OF Cons.prems(3)] pi(1) nfull)
  with inv' show ?case by auto
qed

lemma pop_calls:
  assumes "ring_inv (rs_rb s) pushed T CT CH" "T + n \<le> length pushed"
    "rs_consumer s = C_Idle"
  shows "\<exists>rb' CH'. ring_exec (concat (replicate n pop_call)) s =
           Some (s \<lparr> rs_rb := rb',
                     rs_pops := rs_pops s @ map (\<lambda>x. (x, True)) (take n (drop T pushed)) \<rparr>) \<and>
           ring_inv rb' pushed (T + n) CT CH'"
  using assms
proof (induction n arbitrary: s T CH)
  case 0
  then show ?case
    by (intro exI [of _ "rs_rb s"] exI [of _ CH]) simp
next
  case (Suc n)
  let ?rb = "rs_rb s"
  let ?s1 = "s \<lparr> rs_rb := snd (hev_ring_buffer_pop ?rb),
      rs_pops := rs_pops s @ [(fst (hev_ring_buffer_pop ?rb),
         \<not> (tail ?rb = cached_head ?rb \<and> tail ?rb = head ?rb))] \<rparr>"
  from Suc.prems(2) have ne: "T \<noteq> length pushed" and lt: "T < length pushed" by simp_all
  from pop_inv [OF Suc.prems(1)] ne obtain CH1 where
    pi: "fst (hev_ring_buffer_pop ?rb) = pushed ! T"
      "ring_inv (snd (hev_ring_buffer_pop ?rb)) pushed (Suc T) CT CH1"
    by auto
  from empty_iff [OF Suc.prems(1)] ne
  have took: "\<not> (tail ?rb = cached_head ?rb \<and> tail ?rb = head ?rb)" by simp
  have inv1: "ring_inv (rs_rb ?s1) pushed (Suc T) CT CH1"
    using pi(2) by simp
  from Suc.prems(2) have len: "Suc T + n \<le> length pushed" by simp
  have idle1: "rs_consumer ?s1 = C_Idle"
    using Suc.prems(3) by simp
  from Suc.IH [OF inv1 len idle1] obtain rb' CH' where
    run: "ring_exec (concat (replicate n pop_call)) ?s1 =
       Some (?s1 \<lparr> rs_rb := rb',
                   rs_pops := rs_pops ?s1 @ map (\<lambda>x. (x, True)) (take n (drop (Suc T) pushed)) \<rparr>)"
    and inv': "ring_inv rb' pushed (Suc T + n) CT CH'" by blast
  have dr: "take (Suc n) (drop T pushed) = pushed ! T # take n (drop (Suc T) pushed)"
    using lt by (simp add: Cons_nth_drop_Suc [symmetric])
  have "ring_exec (concat (replicate (Suc n) pop_call)) s =
      Some (s \<lparr> rs_rb := rb',
                rs_pops := rs_pops s @ map (\<lambda>x. (x, True)) (take (Suc n) (drop T pushed)) \<rparr>)"
    using run took
    by (simp add: ring_exec_append pop_call_eq [OF Suc.prems(3)] pi(1) dr del: take_Suc_Cons)
  with inv' show ?case by auto
qed

lemma ring_wrap_run:
  assumes len: "length ds = 4095"
  shows "\<exists>s CT CH.
     ring_exec (concat (map push_call ds) @ push_call d @ pop_call @ push_call d') ring_started =
       Some s \<and>
     rs_pushes s = map (\<lambda>x. (x, 0, False)) ds @ [(d, - 1, True), (d', 0, False)] \<and>
     rs_pops s = [(hd ds, True)] \<and> rs_producer s = P_Idle \<and> rs_consumer s = C_Idle \<and>
     ring_inv (rs_rb s) (ds @ [d']) 1 CT CH"
proof -
  have i0: "ring_inv (rs_rb ring_started) [] 0 0 0"
    using fresh_ring_inv by (simp add: ring_started_def)
  have "length ([]::ptr list) - 0 + length ds \<le> 4095"
    using len by simp
  from push_calls [OF i0 this] obtain rb1 CT1 where
    r1: "ring_exec (concat (map push_call ds)) ring_started =
       Some (ring_started \<lparr> rs_rb := rb1, rs_pushes := map (\<lambda>x. (x, 0, False)) ds \<rparr>)"
    and inv1: "ring_inv rb1 ds 0 CT1 0"
    by (auto simp: ring_started_def)
  let ?s1 = "ring_started \<lparr> rs_rb := rb1, rs_pushes := map (\<lambda>x. (x, 0, False)) ds \<rparr>"
  have p1: "rs_producer ?s1 = P_Idle" and c1: "rs_consumer ?s1 = C_Idle"
    by (simp_all add: ring_started_def)
  from push_inv [OF inv1, of d] len obtain CT2 where
    a2: "hev_ring_buffer_push rb1 d = (- 1, rb1 \<lparr> cached_tail := tail rb1 \<rparr>)"
    and inv2: "ring_inv (rb1 \<lparr> cached_tail := tail rb1 \<rparr>) ds 0 CT2 0"
    by auto
  from full_iff [OF inv1] len have f2: "ring_full rb1" by simp
  let ?rb2 = "rb1 \<lparr> cached_tail := tail rb1 \<rparr>"
  let ?s2 = "?s1 \<lparr> rs_rb := ?rb2,
      rs_pushes := rs_pushes ?s1 @ [(d, - 1, True)] \<rparr>"
  have r2: "ring_exec (push_call d) ?s1 = Some ?s2"
    unfolding push_call_eq [OF p1] using a2 f2 by simp
  have c2: "rs_consumer ?s2 = C_Idle" and p2: "rs_producer ?s2 = P_Idle"
    by (simp_all add: ring_started_def)
  from pop_inv [OF inv2] len obtain CH3 where
    a3: "fst (hev_ring_buffer_pop ?rb2) = ds ! 0"
    and inv3: "ring_inv (snd (hev_ring_buffer_pop ?rb2)) ds (Suc 0) CT2 CH3"
    by auto
  from empty_iff [OF inv2] len
  have t3: "\<not> (tail ?rb2 = cached_head ?rb2 \<and> tail ?rb2 = head ?rb2)" by simp
  let ?rb3 = "snd (hev_ring_buffer_pop ?rb2)"
  let ?s3 = "?s2 \<lparr> rs_rb := ?rb3, rs_pops := rs_pops ?s2 @ [(ds ! 0, True)] \<rparr>"
  have r3: "ring_exec pop_call ?s2 = Some ?s3"
    unfolding pop_call_eq [OF c2] using t3 a3 by simp
  have p3: "rs_producer ?s3 = P_Idle"
    by (simp add: ring_started_def)
  from push_inv [OF inv3, of d'] len obtain CT4 where
    a4: "fst (hev_ring_buffer_push ?rb3 d') = 0"
    and inv4: "ring_inv (snd (hev_ring_buffer_push ?rb3 d')) (ds @ [d']) (Suc 0) CT4 CH3"
    by auto
  from full_iff [OF inv3] len have f4: "\<not> ring_full ?rb3" by simp
  let ?s4 = "?s3 \<lparr> rs_rb := snd (hev_ring_buffer_push ?rb3 d'),
      rs_pushes := rs_pushes ?s3 @ [(d', 0, False)] \<rparr>"
  have r4: "ring_exec (push_call d') ?s3 = Some ?s4"
    unfolding push_call_eq [OF p3] using a4 f4 by simp
  have hd: "hd ds = ds ! 0"
    using len by (cases ds) simp_all
  have run: "ring_exec (concat (map push_call ds) @ push_call d @ pop_call @ push_call d')
      ring_started = Some ?s4"
    by (simp only: ring_exec_append r1 r2 r3 r4 option.case)
  have "rs_pushes ?s4 = map (\<lambda>x. (x, 0, False)) ds @ [(d, - 1, True), (d', 0, False)]"
    "rs_pops ?s4 = [(hd ds, True)]" "rs_producer ?s4 = P_Idle" "rs_consumer ?s4 = C_Idle"
    by (simp_all add: ring_started_def hd)
  moreover have "ring_inv (rs_rb ?s4) (ds @ [d']) 1 CT4 CH3"
    using inv4 by simp
  ultimately show ?thesis
    using run by blast
qed

lemma returned_of_taken:
  "list_all (\<lambda>(p, took). took \<or> p = NULL) ps \<Longrightarrow>
     filter (\<lambda>p. p \<noteq> NULL) (map fst ps) = filter (\<lambda>p. p \<noteq> NULL) (map fst (filter snd ps))"
  by (induction ps) auto

text \<open>
  Claim C2, amended.  In every interleaving of one producer and one consumer on a
  fresh ring: \<open>push\<close> returns 0 or -1, and it returns -1 exactly when
  \<open>((head + 1) & mask) == tail\<close> holds at the step that decides the call; a \<open>pop\<close>
  that takes no slot returns \<open>NULL\<close>; the pointers returned by the calls of \<open>pop\<close>
  that took a slot are, in order, the first pointers that \<open>push\<close> accepted, so that
  the non-null pointers returned are the non-null ones among these, and all of
  them when no \<open>NULL\<close> was accepted.  On a fresh ring 4095 pushes in a row are all
  accepted, the next push is rejected, a pop then returns the first pointer pushed,
  and one more push is accepted.
\<close>

theorem spsc_fifo_of_accepted:
  "(\<forall>acts s. ring_exec acts ring_started = Some s \<longrightarrow>
      list_all (\<lambda>(d, r, f). (r = 0 \<or> r = - 1) \<and> (r = - 1) = f) (rs_pushes s) \<and>
      list_all (\<lambda>(p, took). took \<or> p = NULL) (rs_pops s) \<and>
      taken s \<le> length (accepted s) \<and>
      map fst (filter snd (rs_pops s)) = take (taken s) (accepted s) \<and>
      returned s = filter (\<lambda>p. p \<noteq> NULL) (take (taken s) (accepted s)) \<and>
      (NULL \<notin> set (accepted s) \<longrightarrow> returned s = take (taken s) (accepted s))) \<and>
   (\<forall>ds d d'. length ds = 4095 \<longrightarrow>
      (\<exists>s. ring_exec (concat (map push_call ds) @ push_call d @ pop_call @ push_call d')
              ring_started = Some s \<and>
           rs_pushes s = map (\<lambda>x. (x, 0, False)) ds @ [(d, - 1, True), (d', 0, False)] \<and>
           rs_pops s = [(hd ds, True)]))"
proof (intro conjI allI impI)
  fix acts s
  assume run: "ring_exec acts ring_started = Some s"
  from ring_exec_inv [OF run ring_started_inv] obtain CT CH where inv: "ring_sys_inv s CT CH"
    by blast
  note f = ring_sys_invD [OF inv]
  from f(14) show l1: "list_all (\<lambda>(d, r, f). (r = 0 \<or> r = - 1) \<and> (r = - 1) = f) (rs_pushes s)"
    and l2: "list_all (\<lambda>(p, took). took \<or> p = NULL) (rs_pops s)"
    and l3: "map fst (filter snd (rs_pops s)) = take (taken s) (accepted s)"
    by (simp_all add: log_inv_def)
  show "taken s \<le> length (accepted s)"
    using f by linarith
  show r: "returned s = filter (\<lambda>p. p \<noteq> NULL) (take (taken s) (accepted s))"
    using returned_of_taken [OF l2] l3 by (simp add: returned_def)
  assume "NULL \<notin> set (accepted s)"
  then have "\<forall>p \<in> set (take (taken s) (accepted s)). p \<noteq> NULL"
    by (metis in_set_takeD)
  then show "returned s = take (taken s) (accepted s)"
    unfolding r by (simp add: filter_id_conv)
next
  fix ds :: "ptr list" and d d'
  assume "length ds = 4095"
  from ring_wrap_run [OF this, of d d']
  show "\<exists>s. ring_exec (concat (map push_call ds) @ push_call d @ pop_call @ push_call d')
              ring_started = Some s \<and>
           rs_pushes s = map (\<lambda>x. (x, 0, False)) ds @ [(d, - 1, True), (d', 0, False)] \<and>
           rs_pops s = [(hd ds, True)]"
    by blast
qed

theorem spsc_fifo_of_accepted_witness:
  "(\<exists>s. ring_exec [Call_Push 5, Call_Pop, Producer_Step, Consumer_Step, Producer_Step,
                     Call_Pop, Consumer_Step, Consumer_Step, Call_Push 6, Consumer_Step,
                     Producer_Step, Producer_Step] ring_started = Some s \<and>
        rs_pushes s = [(5, 0, False), (6, 0, False)] \<and>
        rs_pops s = [(NULL, False), (5, True)] \<and>
        accepted s = [5, 6] \<and> taken s = 1 \<and> returned s = [5] \<and>
        NULL \<notin> set (accepted s) \<and>
        list_all (\<lambda>(d, r, f). (r = 0 \<or> r = - 1) \<and> (r = - 1) = f) (rs_pushes s) \<and>
        list_all (\<lambda>(p, took). took \<or> p = NULL) (rs_pops s) \<and>
        taken s \<le> length (accepted s) \<and>
        map fst (filter snd (rs_pops s)) = take (taken s) (accepted s) \<and>
        returned s = filter (\<lambda>p. p \<noteq> NULL) (take (taken s) (accepted s)) \<and>
        returned s = take (taken s) (accepted s)) \<and>
   length (map Suc [0..<4095]) = 4095 \<and>
   (\<exists>s. ring_exec (concat (map push_call (map Suc [0..<4095])) @ push_call 9000 @ pop_call @
                    push_call 9001) ring_started = Some s \<and>
        rs_pushes s = map (\<lambda>x. (x, 0, False)) (map Suc [0..<4095]) @
                      [(9000, - 1, True), (9001, 0, False)] \<and>
        rs_pops s = [(hd (map Suc [0..<4095]), True)])"
proof -
  let ?acts = "[Call_Push 5, Call_Pop, Producer_Step, Consumer_Step, Producer_Step,
               Call_Pop, Consumer_Step, Consumer_Step, Call_Push 6, Consumer_Step,
               Producer_Step, Producer_Step]"
  obtain s where run: "ring_exec ?acts ring_started = Some s"
    and logs: "rs_pushes s = [(5, 0, False), (6, 0, False)]" "rs_pops s = [(NULL, False), (5, True)]"
    by (simp add: ring_started_def fresh_ring_def RING_BUFFER_SIZE_def call_push_def call_pop_def
        producer_step_def consumer_step_def ring_full_def Let_def and_4095)
  from logs have vals: "accepted s = [5, 6]" "taken s = 1" "returned s = [5]"
    "NULL \<notin> set (accepted s)"
    by (simp_all add: accepted_def taken_def returned_def)
  have len: "length (map Suc [0..<4095]) = 4095"
    by simp
  note a = spsc_fifo_of_accepted [THEN conjunct1, rule_format, OF run]
  note b = spsc_fifo_of_accepted [THEN conjunct2, rule_format, OF len, of 9000 9001]
  from a vals(4) have a': "list_all (\<lambda>(d, r, f). (r = 0 \<or> r = - 1) \<and> (r = - 1) = f) (rs_pushes s) \<and>
        list_all (\<lambda>(p, took). took \<or> p = NULL) (rs_pops s) \<and>
        taken s \<le> length (accepted s) \<and>
        map fst (filter snd (rs_pops s)) = take (taken s) (accepted s) \<and>
        returned s = filter (\<lambda>p. p \<noteq> NULL) (take (taken s) (accepted s)) \<and>
        returned s = take (taken s) (accepted s)"
    by blast
  have A: "\<exists>s. ring_exec ?acts ring_started = Some s \<and>
        rs_pushes s = [(5, 0, False), (6, 0, False)] \<and>
        rs_pops s = [(NULL, False), (5, True)] \<and>
        accepted s = [5, 6] \<and> taken s = 1 \<and> returned s = [5] \<and>
        NULL \<notin> set (accepted s) \<and>
        list_all (\<lambda>(d, r, f). (r = 0 \<or> r = - 1) \<and> (r = - 1) = f) (rs_pushes s) \<and>
        list_all (\<lambda>(p, took). took \<or> p = NULL) (rs_pops s) \<and>
        taken s \<le> length (accepted s) \<and>
        map fst (filter snd (rs_pops s)) = take (taken s) (accepted s) \<and>
        returned s = filter (\<lambda>p. p \<noteq> NULL) (take (taken s) (accepted s)) \<and>
        returned s = take (taken s) (accepted s)"
    using run logs vals a' by blast
  show ?thesis
    by (rule conjI [OF A conjI [OF len b]])
qed

text \<open>
  Claim C2, as stated, fails for the sequence supplied to \<open>push\<close>: a pointer that
  \<open>push\<close> rejects never comes out.  On a fresh ring the producer pushes the
  pointers 1 to 4095, then 5000, which is rejected; the consumer pops once, the
  producer pushes 6000, and the consumer pops 4095 times.  The pointers returned are
  1 to 4095 and 6000; they are no prefix of the pointers supplied.
\<close>

theorem rejected_push_counterexample:
  "\<exists>s. ring_exec (concat (map push_call (map Suc [0..<4095])) @ push_call 5000 @ pop_call @
                  push_call 6000 @ concat (replicate 4095 pop_call)) ring_started = Some s \<and>
       supplied s = map Suc [0..<4095] @ [5000, 6000] \<and>
       returned s = map Suc [0..<4095] @ [6000] \<and>
       \<not> (\<exists>rest. supplied s = returned s @ rest)"
proof -
  let ?ds = "map Suc [0..<4095]"
  have len: "length ?ds = 4095" by simp
  from ring_wrap_run [OF len, of 5000 6000] obtain s1 CT CH where
    r1: "ring_exec (concat (map push_call ?ds) @ push_call 5000 @ pop_call @ push_call 6000)
      ring_started = Some s1"
    and l1: "rs_pushes s1 = map (\<lambda>x. (x, 0, False)) ?ds @ [(5000, - 1, True), (6000, 0, False)]"
      "rs_pops s1 = [(hd ?ds, True)]" "rs_consumer s1 = C_Idle"
    and inv: "ring_inv (rs_rb s1) (?ds @ [6000]) 1 CT CH"
    by blast
  have "1 + 4095 \<le> length (?ds @ [6000])" by simp
  from pop_calls [OF inv this l1(3)] obtain rb' where
    r2: "ring_exec (concat (replicate 4095 pop_call)) s1 =
      Some (s1 \<lparr> rs_rb := rb',
                 rs_pops := rs_pops s1 @ map (\<lambda>x. (x, True)) (take 4095 (drop 1 (?ds @ [6000]))) \<rparr>)"
    by blast
  let ?s = "s1 \<lparr> rs_rb := rb',
                 rs_pops := rs_pops s1 @ map (\<lambda>x. (x, True)) (take 4095 (drop 1 (?ds @ [6000]))) \<rparr>"
  have run: "ring_exec (concat (map push_call ?ds) @ push_call 5000 @ pop_call @
                  push_call 6000 @ concat (replicate 4095 pop_call)) ring_started = Some ?s"
    using r1 r2 ring_exec_append [of "concat (map push_call ?ds) @ push_call 5000 @ pop_call @
        push_call 6000" "concat (replicate 4095 pop_call)" ring_started]
    by simp
  have hd: "hd ?ds = 1"
    by (simp add: upt_rec [of 0])
  have sp: "supplied ?s = ?ds @ [5000, 6000]"
    by (simp add: supplied_def l1 o_def)
  have "xs \<noteq> [] \<Longrightarrow> hd xs # drop 1 xs = xs" for xs :: "ptr list"
    by (cases xs) simp_all
  from this [of ?ds] len have "hd ?ds # drop 1 ?ds = ?ds"
    by auto
  moreover have mf: "map fst (map (\<lambda>x. (x, True)) xs) = xs" for xs :: "ptr list"
    by (simp add: o_def)
  ultimately have pops: "map fst (rs_pops ?s) = ?ds @ [6000]"
    by (simp add: l1 mf del: map_map)
  have re: "returned ?s = ?ds @ [6000]"
    unfolding returned_def pops by (simp add: filter_map o_def)
  have "\<not> (\<exists>rest. supplied ?s = returned ?s @ rest)"
    unfolding sp re by simp
  with run sp re show ?thesis
    by blast
qed

section \<open>Properties of the connection pool\<close>

lemma get_scan_counters:
  "get_scan e i n pool = (f, pool') \<Longrightarrow>
     total_requests pool' = total_requests pool \<and> cache_misses pool' = cache_misses pool \<and>
     pool_size pool' = pool_size pool \<and>
     (if f < 0 then f = - 1 \<and> cache_hits pool' = cache_hits pool
      else cache_hits pool' = cache_hits pool + 1)"
proof (induction n arbitrary: i pool)
  case 0
  then show ?case by auto
next
  case (Suc n)
  let ?c = "conns pool i"
  show ?case
  proof (cases "fd ?c \<ge> 0 \<and> \<not> in_use ?c \<and> now e - last_used ?c < CONN_IDLE_TIMEOUT")
    case False
    with Suc.prems have "get_scan e (Suc i) n pool = (f, pool')"
      by (simp add: Let_def)
    from Suc.IH [OF this] show ?thesis .
  next
    case cand: True
    show ?thesis
    proof (cases "dead (recv_peek e (fd ?c))")
      case True
      with cand Suc.prems have "get_scan e (Suc i) n
          (pool \<lparr> conns := (conns pool)(i := ?c \<lparr> fd := - 1 \<rparr>),
                  evictions := evictions pool + 1 \<rparr>) = (f, pool')"
        by (simp add: Let_def)
      from Suc.IH [OF this] show ?thesis by simp
    next
      case False
      with cand Suc.prems show ?thesis
        by (auto simp: Let_def)
    qed
  qed
qed

lemma get_scan_frame:
  "get_scan e i n pool = (f, pool') \<Longrightarrow> f < 0 \<Longrightarrow>
     conns pool' k = conns pool k \<or>
     (i \<le> k \<and> k < i + n \<and> fd (conns pool k) \<ge> 0 \<and> \<not> in_use (conns pool k) \<and>
      now e - last_used (conns pool k) < CONN_IDLE_TIMEOUT \<and>
      dead (recv_peek e (fd (conns pool k))) \<and>
      conns pool' k = (conns pool k) \<lparr> fd := - 1 \<rparr>)"
proof (induction n arbitrary: i pool)
  case 0
  then show ?case by simp
next
  case (Suc n)
  let ?c = "conns pool i"
  show ?case
  proof (cases "fd ?c \<ge> 0 \<and> \<not> in_use ?c \<and> now e - last_used ?c < CONN_IDLE_TIMEOUT")
    case False
    with Suc.prems have "get_scan e (Suc i) n pool = (f, pool')"
      by (simp add: Let_def)
    from Suc.IH [OF this Suc.prems(2)] show ?thesis by auto
  next
    case cand: True
    show ?thesis
    proof (cases "dead (recv_peek e (fd ?c))")
      case True
      let ?p = "pool \<lparr> conns := (conns pool)(i := ?c \<lparr> fd := - 1 \<rparr>),
                       evictions := evictions pool + 1 \<rparr>"
      from True cand Suc.prems have "get_scan e (Suc i) n ?p = (f, pool')"
        by (simp add: Let_def)
      from Suc.IH [OF this Suc.prems(2)]
      have ih: "conns pool' k = conns ?p k \<or>
        (Suc i \<le> k \<and> k < Suc i + n \<and> fd (conns ?p k) \<ge> 0 \<and> \<not> in_use (conns ?p k) \<and>
         now e - last_used (conns ?p k) < CONN_IDLE_TIMEOUT \<and>
         dead (recv_peek e (fd (conns ?p k))) \<and>
         conns pool' k = (conns ?p k) \<lparr> fd := - 1 \<rparr>)" .
      show ?thesis
      proof (cases "k = i")
        case True
        with ih have "conns pool' k = ?c \<lparr> fd := - 1 \<rparr>" by simp
        with True cand \<open>dead (recv_peek e (fd ?c))\<close> show ?thesis by simp
      next
        case False
        with ih show ?thesis by auto
      qed
    next
      case False
      with cand Suc.prems show ?thesis
        by (auto simp: Let_def)
    qed
  qed
qed

lemma get_scan_fds:
  "get_scan e i n pool = (f, pool') \<Longrightarrow>
     fd (conns pool' k) = fd (conns pool k) \<or> fd (conns pool' k) = - 1"
proof (induction n arbitrary: i pool)
  case 0
  then show ?case by simp
next
  case (Suc n)
  let ?c = "conns pool i"
  show ?case
  proof (cases "fd ?c \<ge> 0 \<and> \<not> in_use ?c \<and> now e - last_used ?c < CONN_IDLE_TIMEOUT")
    case False
    with Suc.prems have "get_scan e (Suc i) n pool = (f, pool')"
      by (simp add: Let_def)
    from Suc.IH [OF this] show ?thesis .
  next
    case cand: True
    show ?thesis
    proof (cases "dead (recv_peek e (fd ?c))")
      case True
      let ?p = "pool \<lparr> conns := (conns pool)(i := ?c \<lparr> fd := - 1 \<rparr>),
                       evictions := evictions pool + 1 \<rparr>"
      from True cand Suc.prems have "get_scan e (Suc i) n ?p = (f, pool')"
        by (simp add: Let_def)
      from Suc.IH [OF this] show ?thesis
        by (cases "k = i") auto
    next
      case False
      with cand Suc.prems show ?thesis
        by (auto simp: Let_def)
    qed
  qed
qed

lemma get_counters:
  assumes "hev_connection_pool_get e pool = (r, pool')"
  shows "total_requests pool' = total_requests pool + 1"
    "pool_size pool' = pool_size pool"
    "if r < 0 then r = - 1 \<and> cache_hits pool' = cache_hits pool \<and> cache_misses pool' = cache_misses pool
     else (cache_hits pool' = cache_hits pool + 1 \<and> cache_misses pool' = cache_misses pool) \<or>
          (cache_hits pool' = cache_hits pool \<and> cache_misses pool' = cache_misses pool + 1)"
proof -
  let ?p0 = "pool \<lparr> total_requests := total_requests pool + 1 \<rparr>"
  obtain f pool1 where sc: "get_scan e 0 (pool_size pool) ?p0 = (f, pool1)"
    by (cases "get_scan e 0 (pool_size pool) ?p0")
  note c = get_scan_counters [OF sc]
  from assms sc c show "total_requests pool' = total_requests pool + 1"
    by (auto simp: hev_connection_pool_get_def split: if_splits)
  from assms sc c show "pool_size pool' = pool_size pool"
    by (auto simp: hev_connection_pool_get_def split: if_splits)
  from assms sc c show "if r < 0 then r = - 1 \<and> cache_hits pool' = cache_hits pool \<and> cache_misses pool' = cache_misses pool
     else (cache_hits pool' = cache_hits pool + 1 \<and> cache_misses pool' = cache_misses pool) \<or>
          (cache_hits pool' = cache_hits pool \<and> cache_misses pool' = cache_misses pool + 1)"
    by (auto simp: hev_connection_pool_get_def split: if_splits)
qed

lemma get_run_counters:
  "get_run es pool = (rs, pool') \<Longrightarrow>
     length rs = length es \<and>
     total_requests pool' = total_requests pool + of_nat (length es) \<and>
     cache_hits pool' + cache_misses pool' + of_nat (length (filter (\<lambda>r. r < 0) rs)) =
       cache_hits pool + cache_misses pool + of_nat (length es)"
proof (induction es arbitrary: pool rs pool')
  case Nil
  then show ?case by simp
next
  case (Cons e es)
  obtain r pool1 where g: "hev_connection_pool_get e pool = (r, pool1)"
    by (cases "hev_connection_pool_get e pool")
  obtain rs1 pool2 where run: "get_run es pool1 = (rs1, pool2)"
    by (cases "get_run es pool1")
  from Cons.prems g run have res: "rs = r # rs1" "pool' = pool2"
    by simp_all
  note c = get_counters [OF g]
  note ih = Cons.IH [OF run]
  show ?case
  proof (cases "r < 0")
    case True
    with c(3) have "cache_hits pool1 = cache_hits pool" "cache_misses pool1 = cache_misses pool"
      by simp_all
    with ih c(1) True show ?thesis
      unfolding res by (simp add: algebra_simps)
  next
    case False
    with c(3) have "cache_hits pool1 + cache_misses pool1 = cache_hits pool + cache_misses pool + 1"
      by auto
    with ih c(1) False show ?thesis
      unfolding res by (simp add: algebra_simps)
  qed
qed

text \<open>
  Claim C5, as stated, fails: a \<open>get\<close> whose \<open>socket\<close> call fails returns \<open>- 1\<close>
  after \<open>total_requests\<close> was incremented, and counts neither a hit nor a miss.
\<close>

theorem get_socket_failure_counterexample:
  "let pool = the (hev_connection_pool_new True 1);
       e = \<lparr> now = 0, recv_peek = (\<lambda>_. Recv_Again), socket_fd = - 1, connect_ok = False \<rparr>;
       (r, pool') = hev_connection_pool_get e pool
   in r = - 1 \<and> total_requests pool' = 1 \<and> cache_hits pool' = 0 \<and> cache_misses pool' = 0 \<and>
      cache_hits pool' + cache_misses pool' \<noteq> total_requests pool'"
  by (simp add: hev_connection_pool_new_def hev_connection_pool_get_def CONN_POOL_SIZE_def)

text \<open>
  Claim C5, amended.  On a fresh pool, after any sequence of \<open>get\<close> calls
  \<open>total_requests\<close> is the number of calls and \<open>cache_hits + cache_misses\<close> plus the
  number of calls that returned \<open>- 1\<close> equals \<open>total_requests\<close>; so the identity
  \<open>cache_hits + cache_misses = total_requests\<close> holds when no call failed.  Every
  call increments \<open>total_requests\<close>; a call that returns a descriptor counts exactly
  one hit or one miss, and a call that returns \<open>- 1\<close> counts neither.
\<close>

theorem get_run_statistics:
  assumes "hev_connection_pool_new True sz = Some pool" and "get_run es pool = (rs, pool')"
  shows "total_requests pool' = of_nat (length es) \<and>
     cache_hits pool' + cache_misses pool' + of_nat (length (filter (\<lambda>r. r < 0) rs)) =
       total_requests pool' \<and>
     ((\<forall>r \<in> set rs. 0 \<le> r) \<longrightarrow> cache_hits pool' + cache_misses pool' = total_requests pool') \<and>
     (\<forall>e q r q'. hev_connection_pool_get e q = (r, q') \<longrightarrow>
        total_requests q' = total_requests q + 1 \<and>
        (if r < 0
         then r = - 1 \<and> cache_hits q' = cache_hits q \<and> cache_misses q' = cache_misses q
         else (cache_hits q' = cache_hits q + 1 \<and> cache_misses q' = cache_misses q) \<or>
              (cache_hits q' = cache_hits q \<and> cache_misses q' = cache_misses q + 1)))"
proof -
  from assms(1) have z: "total_requests pool = 0" "cache_hits pool = 0" "cache_misses pool = 0"
    by (auto simp: hev_connection_pool_new_def Let_def)
  note c = get_run_counters [OF assms(2)]
  have t: "total_requests pool' = of_nat (length es)"
    using c z by simp
  have s: "cache_hits pool' + cache_misses pool' + of_nat (length (filter (\<lambda>r. r < 0) rs)) =
       total_requests pool'"
    using c z by simp
  have n: "cache_hits pool' + cache_misses pool' = total_requests pool'" if "\<forall>r \<in> set rs. 0 \<le> r"
  proof -
    from that have "filter (\<lambda>r. r < 0) rs = []"
      by (auto simp: filter_empty_conv)
    with s show ?thesis by simp
  qed
  have "total_requests q' = total_requests q + 1 \<and>
        (if r < 0
         then r = - 1 \<and> cache_hits q' = cache_hits q \<and> cache_misses q' = cache_misses q
         else (cache_hits q' = cache_hits q + 1 \<and> cache_misses q' = cache_misses q) \<or>
              (cache_hits q' = cache_hits q \<and> cache_misses q' = cache_misses q + 1))"
    if "hev_connection_pool_get e q = (r, q')" for e q r q'
    using get_counters [OF that] by simp
  with t s n show ?thesis by blast
qed

theorem get_run_statistics_witness:
  "\<exists>pool pool'. hev_connection_pool_new True 1 = Some pool \<and>
     get_run [\<lparr> now = 0, recv_peek = (\<lambda>_. Recv_Again), socket_fd = 7, connect_ok = True \<rparr>,
              \<lparr> now = 1, recv_peek = (\<lambda>_. Recv_Again), socket_fd = - 1, connect_ok = False \<rparr>] pool
       = ([7, - 1], pool') \<and>
     total_requests pool' = 2 \<and> cache_hits pool' + cache_misses pool' + 1 = total_requests pool'"
proof -
  let ?es = "[\<lparr> now = 0, recv_peek = (\<lambda>_. Recv_Again), socket_fd = 7, connect_ok = True \<rparr>,
              \<lparr> now = 1, recv_peek = (\<lambda>_. Recv_Again), socket_fd = - 1, connect_ok = False \<rparr>]"
  obtain pool where p: "hev_connection_pool_new True 1 = Some pool"
    by (simp add: hev_connection_pool_new_def Let_def)
  obtain rs pool' where run: "get_run ?es pool = (rs, pool')"
    by (cases "get_run ?es pool")
  from p have "pool_size pool = 1" "fd (conns pool 0) = - 1"
    by (auto simp: hev_connection_pool_new_def CONN_POOL_SIZE_def Let_def)
  with run have rs: "rs = [7, - 1]"
    by (auto simp: hev_connection_pool_get_def Let_def split_beta)
  from get_run_statistics [OF p run] rs p run show ?thesis
    by simp
qed

lemma find_fd_None:
  "find_fd pool f i n = None \<longleftrightarrow> (\<forall>j<n. fd (conns pool (i + j)) \<noteq> f)"
proof (induction n arbitrary: i)
  case 0
  then show ?case by simp
next
  case (Suc n)
  then show ?case
    by (simp add: All_less_Suc2)
qed

lemma find_fd_Some:
  "find_fd pool f i n = Some k \<Longrightarrow> i \<le> k \<and> k < i + n \<and> fd (conns pool k) = f"
proof (induction n arbitrary: i)
  case 0
  then show ?case by simp
next
  case (Suc n)
  show ?case
  proof (cases "fd (conns pool i) = f")
    case True
    with Suc.prems show ?thesis by simp
  next
    case False
    with Suc.prems have "find_fd pool f (Suc i) n = Some k" by simp
    from Suc.IH [OF this] show ?thesis by simp
  qed
qed

lemma find_empty_Some:
  "find_empty pool i n = Some k \<Longrightarrow> i \<le> k \<and> k < i + n \<and> fd (conns pool k) < 0"
proof (induction n arbitrary: i)
  case 0
  then show ?case by simp
next
  case (Suc n)
  show ?case
  proof (cases "fd (conns pool i) < 0")
    case True
    with Suc.prems show ?thesis by simp
  next
    case False
    with Suc.prems have "find_empty pool (Suc i) n = Some k" by simp
    from Suc.IH [OF this] show ?thesis by simp
  qed
qed

lemma get_fds:
  assumes "hev_connection_pool_get e pool = (r, pool')"
  shows "fd (conns pool' k) = fd (conns pool k) \<or> fd (conns pool' k) = - 1"
proof -
  let ?p0 = "pool \<lparr> total_requests := total_requests pool + 1 \<rparr>"
  obtain f pool1 where sc: "get_scan e 0 (pool_size pool) ?p0 = (f, pool1)"
    by (cases "get_scan e 0 (pool_size pool) ?p0")
  from get_scan_fds [OF sc, of k] assms sc show ?thesis
    by (auto simp: hev_connection_pool_get_def split: if_splits)
qed

lemma get_holds:
  assumes "0 \<le> f" "holds (snd (hev_connection_pool_get e pool)) f"
  shows "holds pool f"
proof -
  obtain r pool' where g: "hev_connection_pool_get e pool = (r, pool')"
    by (cases "hev_connection_pool_get e pool")
  from assms(2) g obtain i where i: "i < pool_size pool'" "fd (conns pool' i) = f"
    by (auto simp: holds_def)
  with get_fds [OF g, of i] assms(1) have "fd (conns pool i) = f"
    by auto
  with i(1) get_counters(2) [OF g] show ?thesis
    by (auto simp: holds_def)
qed

lemma remove_holds:
  assumes "0 \<le> f" "holds (hev_connection_pool_remove pool g) f"
  shows "holds pool f"
  using assms
  by (auto simp: holds_def hev_connection_pool_remove_def split: if_splits option.splits)

lemma cleanup_scan_fds:
  "pool_size (cleanup_scan t i n pool) = pool_size pool \<and>
   (fd (conns (cleanup_scan t i n pool) k) = fd (conns pool k) \<or>
    fd (conns (cleanup_scan t i n pool) k) = - 1)"
proof (induction n arbitrary: i pool)
  case 0
  then show ?case by simp
next
  case (Suc n)
  let ?c = "conns pool i"
  let ?p = "pool \<lparr> conns := (conns pool)(i := ?c \<lparr> fd := - 1 \<rparr>),
                   evictions := evictions pool + 1 \<rparr>"
  show ?case
  proof (cases "fd ?c \<ge> 0 \<and> \<not> in_use ?c \<and> t - last_used ?c \<ge> CONN_IDLE_TIMEOUT")
    case True
    then have "cleanup_scan t i (Suc n) pool = cleanup_scan t (Suc i) n ?p"
      by (simp add: Let_def)
    with Suc.IH [of "Suc i" ?p] show ?thesis
      by (cases "k = i") auto
  next
    case False
    then have "cleanup_scan t i (Suc n) pool = cleanup_scan t (Suc i) n pool"
      by (auto simp: Let_def)
    with Suc.IH [of "Suc i" pool] show ?thesis
      by simp
  qed
qed

lemma cleanup_holds:
  assumes "0 \<le> f" "holds (hev_connection_pool_cleanup t pool) f"
  shows "holds pool f"
proof -
  from assms(2) obtain i where i: "i < pool_size (hev_connection_pool_cleanup t pool)"
    "fd (conns (hev_connection_pool_cleanup t pool) i) = f"
    by (auto simp: holds_def)
  with cleanup_scan_fds [of t 0 "pool_size pool" pool i] assms(1)
  have "i < pool_size pool" "fd (conns pool i) = f"
    by (auto simp: hev_connection_pool_cleanup_def)
  then show ?thesis
    by (auto simp: holds_def)
qed

lemma release_new_fd:
  assumes "0 \<le> f" "\<not> holds pool f"
  shows "case find_empty pool 0 (pool_size pool) of
           Some i \<Rightarrow> i < pool_size pool \<and> fd (conns pool i) < 0 \<and>
             hev_connection_pool_release t pool f =
               pool \<lparr> conns := (conns pool)
                         (i := (conns pool i) \<lparr> fd := f, in_use := False, last_used := t,
                                                created := t, use_count := 1 \<rparr>) \<rparr> \<and>
             holds (hev_connection_pool_release t pool f) f
         | None \<Rightarrow> hev_connection_pool_release t pool f = pool \<lparr> evictions := evictions pool + 1 \<rparr>"
proof -
  from assms(2) have nf: "find_fd pool f 0 (pool_size pool) = None"
    by (simp add: find_fd_None holds_def)
  show ?thesis
  proof (cases "find_empty pool 0 (pool_size pool)")
    case None
    with nf assms(1) show ?thesis
      by (simp add: hev_connection_pool_release_def)
  next
    case (Some i)
    from find_empty_Some [OF this] have i: "i < pool_size pool" "fd (conns pool i) < 0"
      by simp_all
    have rel: "hev_connection_pool_release t pool f =
               pool \<lparr> conns := (conns pool)
                         (i := (conns pool i) \<lparr> fd := f, in_use := False, last_used := t,
                                                created := t, use_count := 1 \<rparr>) \<rparr>"
      using nf Some assms(1) by (simp add: hev_connection_pool_release_def)
    have "holds (hev_connection_pool_release t pool f) f"
      unfolding rel holds_def using i(1) by auto
    with i rel Some show ?thesis by simp
  qed
qed

text \<open>
  Claim C10.  When \<open>get\<close> takes the miss path it returns the new descriptor, and
  every slot is as it was before the call, except that a dead candidate met by the
  scan has been emptied; in particular no slot comes to hold the new descriptor.  A
  descriptor that no slot holds enters the pool by \<open>release\<close>, which stores it in
  the first empty slot if there is one; \<open>get\<close>, \<open>remove\<close> and \<open>cleanup\<close> never make
  a slot hold a descriptor that no slot held before.
\<close>

theorem get_miss_frame:
  assumes "miss_path e pool"
  shows "fst (hev_connection_pool_get e pool) = socket_fd e \<and>
    (\<forall>k. conns (snd (hev_connection_pool_get e pool)) k = conns pool k \<or>
         (k < pool_size pool \<and> fd (conns pool k) \<ge> 0 \<and> \<not> in_use (conns pool k) \<and>
          now e - last_used (conns pool k) < CONN_IDLE_TIMEOUT \<and>
          dead (recv_peek e (fd (conns pool k))) \<and>
          conns (snd (hev_connection_pool_get e pool)) k = (conns pool k) \<lparr> fd := - 1 \<rparr>)) \<and>
    (\<forall>k. fd (conns (snd (hev_connection_pool_get e pool)) k) = socket_fd e \<longrightarrow>
         fd (conns pool k) = socket_fd e) \<and>
    (\<forall>t q f. 0 \<le> f \<and> \<not> holds q f \<longrightarrow>
       (case find_empty q 0 (pool_size q) of
          Some i \<Rightarrow> i < pool_size q \<and> fd (conns q i) < 0 \<and>
             hev_connection_pool_release t q f =
               q \<lparr> conns := (conns q)
                      (i := (conns q i) \<lparr> fd := f, in_use := False, last_used := t,
                                          created := t, use_count := 1 \<rparr>) \<rparr> \<and>
             holds (hev_connection_pool_release t q f) f
        | None \<Rightarrow> hev_connection_pool_release t q f = q \<lparr> evictions := evictions q + 1 \<rparr>)) \<and>
    (\<forall>e' q f. 0 \<le> f \<and> holds (snd (hev_connection_pool_get e' q)) f \<longrightarrow> holds q f) \<and>
    (\<forall>q g f. 0 \<le> f \<and> holds (hev_connection_pool_remove q g) f \<longrightarrow> holds q f) \<and>
    (\<forall>t q f. 0 \<le> f \<and> holds (hev_connection_pool_cleanup t q) f \<longrightarrow> holds q f)"
proof -
  let ?p0 = "pool \<lparr> total_requests := total_requests pool + 1 \<rparr>"
  obtain f pool1 where sc: "get_scan e 0 (pool_size pool) ?p0 = (f, pool1)"
    by (cases "get_scan e 0 (pool_size pool) ?p0")
  from assms sc have neg: "f < 0" and ok: "0 \<le> socket_fd e" "connect_ok e"
    by (simp_all add: miss_path_def)
  have g: "hev_connection_pool_get e pool =
      (socket_fd e, pool1 \<lparr> cache_misses := cache_misses pool1 + 1 \<rparr>)"
    using sc neg ok by (simp add: hev_connection_pool_get_def)
  have frame: "conns (snd (hev_connection_pool_get e pool)) k = conns pool k \<or>
         (k < pool_size pool \<and> fd (conns pool k) \<ge> 0 \<and> \<not> in_use (conns pool k) \<and>
          now e - last_used (conns pool k) < CONN_IDLE_TIMEOUT \<and>
          dead (recv_peek e (fd (conns pool k))) \<and>
          conns (snd (hev_connection_pool_get e pool)) k = (conns pool k) \<lparr> fd := - 1 \<rparr>)" for k
    using get_scan_frame [OF sc neg, of k] unfolding g by simp
  have nohold: "fd (conns pool k) = socket_fd e"
    if "fd (conns (snd (hev_connection_pool_get e pool)) k) = socket_fd e" for k
    using frame [of k] that ok(1) by auto
  have r1: "fst (hev_connection_pool_get e pool) = socket_fd e"
    unfolding g by simp
  have r4: "\<forall>t q f. 0 \<le> f \<and> \<not> holds q f \<longrightarrow>
       (case find_empty q 0 (pool_size q) of
          Some i \<Rightarrow> i < pool_size q \<and> fd (conns q i) < 0 \<and>
             hev_connection_pool_release t q f =
               q \<lparr> conns := (conns q)
                      (i := (conns q i) \<lparr> fd := f, in_use := False, last_used := t,
                                          created := t, use_count := 1 \<rparr>) \<rparr> \<and>
             holds (hev_connection_pool_release t q f) f
        | None \<Rightarrow> hev_connection_pool_release t q f = q \<lparr> evictions := evictions q + 1 \<rparr>)"
    by (intro allI impI, elim conjE, rule release_new_fd)
  have r5: "\<forall>e' q f. 0 \<le> f \<and> holds (snd (hev_connection_pool_get e' q)) f \<longrightarrow> holds q f"
    by (intro allI impI, elim conjE, rule get_holds)
  have r6: "\<forall>q g f. 0 \<le> f \<and> holds (hev_connection_pool_remove q g) f \<longrightarrow> holds q f"
    by (intro allI impI, elim conjE, rule remove_holds)
  have r7: "\<forall>t q f. 0 \<le> f \<and> holds (hev_connection_pool_cleanup t q) f \<longrightarrow> holds q f"
    by (intro allI impI, elim conjE, rule cleanup_holds)
  from frame have r2: "\<forall>k. conns (snd (hev_connection_pool_get e pool)) k = conns pool k \<or>
         (k < pool_size pool \<and> fd (conns pool k) \<ge> 0 \<and> \<not> in_use (conns pool k) \<and>
          now e - last_used (conns pool k) < CONN_IDLE_TIMEOUT \<and>
          dead (recv_peek e (fd (conns pool k))) \<and>
          conns (snd (hev_connection_pool_get e pool)) k = (conns pool k) \<lparr> fd := - 1 \<rparr>)" ..
  from nohold have r3: "\<forall>k. fd (conns (snd (hev_connection_pool_get e pool)) k) = socket_fd e \<longrightarrow>
         fd (conns pool k) = socket_fd e"
    by (intro allI impI)
  show ?thesis
    by (rule conjI [OF r1 conjI [OF r2 conjI [OF r3 conjI [OF r4 conjI [OF r5 conjI [OF r6 r7]]]]]])
qed

theorem get_miss_frame_witness:
  "let pool = hev_connection_pool_release 0 (the (hev_connection_pool_new True 2)) 5;
       e = \<lparr> now = 10, recv_peek = (\<lambda>_. Recv_Closed), socket_fd = 9, connect_ok = True \<rparr>;
       pool' = snd (hev_connection_pool_get e pool)
   in miss_path e pool \<and> fd (conns pool 0) = 5 \<and> fd (conns pool 1) = - 1 \<and>
      fst (hev_connection_pool_get e pool) = 9 \<and>
      fd (conns pool' 0) = - 1 \<and> conns pool' 1 = conns pool 1 \<and> \<not> holds pool' 9 \<and>
      holds (hev_connection_pool_release 11 pool' 9) 9"
proof -
  define pool where "pool = hev_connection_pool_release 0 (the (hev_connection_pool_new True 2)) 5"
  define e where "e = \<lparr> now = 10, recv_peek = (\<lambda>_. Recv_Closed), socket_fd = 9, connect_ok = True \<rparr>"
  define pool' where "pool' = snd (hev_connection_pool_get e pool)"
  have p: "pool = \<lparr> conns = (\<lambda>i. \<lparr> fd = (if i < 2 then - 1 else 0), last_used = 0, created = 0,
                                   in_use = False, use_count = 0 \<rparr>)
                      (0 := \<lparr> fd = 5, last_used = 0, created = 0, in_use = False, use_count = 1 \<rparr>),
                   pool_size = 2,
                   total_requests = 0, cache_hits = 0, cache_misses = 0, evictions = 0 \<rparr>"
    by (simp add: pool_def hev_connection_pool_new_def hev_connection_pool_release_def
        CONN_POOL_SIZE_def eval_nat_numeral)
  have mp: "miss_path e pool"
    by (simp add: p e_def miss_path_def eval_nat_numeral dead_def CONN_IDLE_TIMEOUT_def)
  note f = get_miss_frame [OF mp, folded pool'_def]
  from f [THEN conjunct1] have r: "fst (hev_connection_pool_get e pool) = 9"
    by (simp add: e_def)
  have s0: "fd (conns pool 0) = 5" "fd (conns pool 1) = - 1"
    by (simp_all add: p)
  have g: "hev_connection_pool_get e pool = (9, pool \<lparr> conns := (conns pool)(0 := (conns pool 0)\<lparr> fd := - 1 \<rparr>),
        evictions := 1, total_requests := 1, cache_misses := 1 \<rparr>)"
    by (simp add: p e_def hev_connection_pool_get_def eval_nat_numeral dead_def CONN_IDLE_TIMEOUT_def)
  have p': "pool' = pool \<lparr> conns := (conns pool)(0 := (conns pool 0)\<lparr> fd := - 1 \<rparr>),
        evictions := 1, total_requests := 1, cache_misses := 1 \<rparr>"
    by (simp add: pool'_def g)
  have e0: "fd (conns pool' 0) = - 1" and e1: "conns pool' 1 = conns pool 1"
    and sz: "pool_size pool' = 2"
    by (simp_all add: p' p)
  have nh: "\<not> holds pool' 9"
    by (simp add: holds_def p' p eval_nat_numeral All_less_Suc2)
  have fe: "find_empty pool' 0 (pool_size pool') = Some 0"
    by (simp add: sz e0 eval_nat_numeral)
  have "0 \<le> (9::int) \<and> \<not> holds pool' 9"
    using nh by simp
  from f [THEN conjunct2, THEN conjunct2, THEN conjunct2, THEN conjunct1, rule_format,
      of 9 pool' 11, OF this]
  have h: "holds (hev_connection_pool_release 11 pool' 9) 9"
    unfolding fe option.case by blast
  from mp s0 r e0 e1 nh h show ?thesis
    unfolding Let_def pool_def [symmetric] e_def [symmetric] pool'_def [symmetric]
    by (intro conjI)
qed

section \<open>Properties of the worker pool\<close>

text \<open>
  Claim C6, as stated, fails on a machine with one processor: \<open>get_cpu_count\<close>
  raises the count to 2 before it is doubled, so the pool gets 4 workers where
  \<open>clamp (2 * 1, 2, 64)\<close> is 2.
\<close>

theorem default_threads_single_core_counterexample:
  "map_option num_threads
     (hev_thread_pool_new \<lparr> pool_calloc = True, threads_calloc = True, nprocs = 1,
                            create_ok = (\<lambda>_. True) \<rparr> 0) = Some 4 \<and>
   spec_default_threads 1 = 2"
  by (simp add: hev_thread_pool_new_def get_cpu_count_def MIN_THREADS_def MAX_THREADS_def
      spec_default_threads_def clamp_def list_all_iff)

lemma default_count_eq:
  "(let m = get_cpu_count c * 2 in if m > MAX_THREADS then MAX_THREADS else m) =
     min 64 (2 * max 2 (min 64 c))"
  by (simp add: get_cpu_count_def MIN_THREADS_def MAX_THREADS_def Let_def)

text \<open>
  Claim C6, amended.  A pool that is created for a positive count has exactly that
  many workers.  For a count that is not positive it has
  \<open>min (64, 2 * clamp (cores, 2, 64))\<close> workers: this is \<open>clamp (2 * cores, 2, 64)\<close>
  when there are at least 2 processors, and 4 when there is one.  The pool is
  created whenever the allocations and every thread creation succeed.
\<close>

theorem thread_pool_default_count:
  "(pool_calloc e \<and> threads_calloc e \<and> (\<forall>i. create_ok e i) \<longrightarrow>
      hev_thread_pool_new e n \<noteq> None) \<and>
   (\<forall>pool. hev_thread_pool_new e n = Some pool \<longrightarrow>
      num_threads pool = (if n \<le> 0 then min 64 (2 * max 2 (min 64 (nprocs e))) else n) \<and>
      threads pool = [0..<nat (num_threads pool)] \<and>
      hev_thread_pool_get_thread_count pool = num_threads pool \<and>
      (n \<le> 0 \<and> 2 \<le> nprocs e \<longrightarrow> num_threads pool = spec_default_threads (nprocs e)) \<and>
      (n \<le> 0 \<and> nprocs e \<le> 1 \<longrightarrow> num_threads pool = 4))"
proof (intro conjI allI impI)
  assume "pool_calloc e \<and> threads_calloc e \<and> (\<forall>i. create_ok e i)"
  then show "hev_thread_pool_new e n \<noteq> None"
    by (simp add: hev_thread_pool_new_def list_all_iff Let_def)
next
  fix pool
  assume p: "hev_thread_pool_new e n = Some pool"
  then have nt: "num_threads pool = (if n \<le> 0 then min 64 (2 * max 2 (min 64 (nprocs e))) else n)"
    unfolding hev_thread_pool_new_def default_count_eq
    by (auto simp: Let_def split: if_splits)
  then show "num_threads pool = (if n \<le> 0 then min 64 (2 * max 2 (min 64 (nprocs e))) else n)" .
  from p show "threads pool = [0..<nat (num_threads pool)]"
    unfolding hev_thread_pool_new_def
    by (auto simp: Let_def split: if_splits)
  show "hev_thread_pool_get_thread_count pool = num_threads pool"
    by (simp add: hev_thread_pool_get_thread_count_def)
  {
    assume "n \<le> 0 \<and> 2 \<le> nprocs e"
    with nt show "num_threads pool = spec_default_threads (nprocs e)"
      by (auto simp: spec_default_threads_def clamp_def)
  }
  {
    assume "n \<le> 0 \<and> nprocs e \<le> 1"
    with nt show "num_threads pool = 4"
      by auto
  }
qed

theorem thread_pool_default_count_witness:
  "hev_thread_pool_new \<lparr> pool_calloc = True, threads_calloc = True, nprocs = 8,
                          create_ok = (\<lambda>_. True) \<rparr> 0 \<noteq> None \<and>
   map_option num_threads
     (hev_thread_pool_new \<lparr> pool_calloc = True, threads_calloc = True, nprocs = 8,
                            create_ok = (\<lambda>_. True) \<rparr> 0) = Some 16 \<and>
   spec_default_threads 8 = 16 \<and>
   map_option num_threads
     (hev_thread_pool_new \<lparr> pool_calloc = True, threads_calloc = True, nprocs = 8,
                            create_ok = (\<lambda>_. True) \<rparr> 3) = Some 3"
proof -
  let ?e = "\<lparr> pool_calloc = True, threads_calloc = True, nprocs = 8, create_ok = (\<lambda>_. True) \<rparr>"
  have h: "pool_calloc ?e \<and> threads_calloc ?e \<and> (\<forall>i. create_ok ?e i)"
    by simp
  from thread_pool_default_count [of ?e 0, THEN conjunct1, rule_format, OF h]
  obtain p0 where p0: "hev_thread_pool_new ?e 0 = Some p0"
    by auto
  from thread_pool_default_count [of ?e 3, THEN conjunct1, rule_format, OF h]
  obtain p3 where p3: "hev_thread_pool_new ?e 3 = Some p3"
    by auto
  from thread_pool_default_count [of ?e 0, THEN conjunct2, rule_format, OF p0]
  have "num_threads p0 = 16"
    by simp
  moreover from thread_pool_default_count [of ?e 3, THEN conjunct2, rule_format, OF p3]
  have "num_threads p3 = 3"
    by simp
  moreover have "spec_default_threads 8 = 16"
    by (simp add: spec_default_threads_def clamp_def)
  ultimately show ?thesis
    using p0 p3 by simp
qed

section \<open>Properties of the session registry\<close>

lemma insert_session_grows:
  "fst (insert_session True max_sessions s reg) =
     \<lparr> session_list = session_list reg @ [s], session_count = session_count reg + 1 \<rparr>"
  by (simp add: insert_session_def Let_def)

lemma registry_inserts:
  "registry_run max_sessions (map Insert ss) reg =
     \<lparr> session_list = session_list reg @ ss, session_count = session_count reg + int (length ss) \<rparr>"
proof (induction ss arbitrary: reg)
  case Nil
  then show ?case by simp
next
  case (Cons s ss)
  show ?case
    by (simp add: Cons.IH insert_session_grows)
qed

text \<open>
  Claim C4.  The registry does not enforce the cap: with \<open>max_sessions = 1\<close>, the
  second \<open>insert_session\<close> logs the warning and leaves both sessions registered, so
  the size is 2.  In general any number of inserts are all kept
  (\<open>registry_inserts\<close>).
\<close>

theorem session_cap_exceeded:
  "insert_session True 1 20 (fst (insert_session True 1 10 empty_registry)) =
     (\<lparr> session_list = [10, 20], session_count = 2 \<rparr>, True) \<and>
   registry_run 1 [Insert 10, Insert 20] empty_registry =
     \<lparr> session_list = [10, 20], session_count = 2 \<rparr> \<and>
   \<not> session_count (registry_run 1 [Insert 10, Insert 20] empty_registry) \<le> 1"
  by (simp add: insert_session_def empty_registry_def Let_def)

section \<open>Properties of the TUN I/O engine and the orchestrator\<close>

lemma fill_batch_eq:
  "fill_batch room batch io =
     (batch @ take room (write_queue io),
      io \<lparr> write_queue := drop room (write_queue io),
           write_queue_size := write_queue_size io - int (min room (length (write_queue io))) \<rparr>)"
proof (induction room arbitrary: batch io)
  case 0
  then show ?case by simp
next
  case (Suc room)
  show ?case
  proof (cases "write_queue io")
    case Nil
    then show ?thesis by simp
  next
    case (Cons p ps)
    then show ?thesis
      by (simp add: Suc.IH)
  qed
qed

lemma write_packet_keeps:
  "running (write_packet e p io) = running io"
  "write_queue (write_packet e p io) = write_queue io"
  "write_queue_size (write_packet e p io) = write_queue_size io"
  "num_readers (write_packet e p io) = num_readers io"
  "num_writers (write_packet e p io) = num_writers io"
  "reader_threads (write_packet e p io) = reader_threads io"
  "writer_threads (write_packet e p io) = writer_threads io"
  by (simp_all add: write_packet_def Let_def)

lemma held_all_update:
  "j < length ws \<Longrightarrow>
     held_all (ws[j := w]) + mset (held (ws ! j)) = held_all ws + mset (held w)"
proof (induction ws arbitrary: j)
  case Nil
  then show ?case by simp
next
  case (Cons a ws)
  show ?case
  proof (cases j)
    case 0
    then show ?thesis
      by (simp add: held_all_def)
  next
    case (Suc k)
    with Cons.prems have "k < length ws" by simp
    from Cons.IH [OF this] Suc show ?thesis
      by (simp add: held_all_def ac_simps)
  qed
qed

lemma held_all_same:
  assumes "j < length ws" "held (ws ! j) = held w"
  shows "held_all (ws[j := w]) = held_all ws"
  using held_all_update [OF assms(1), of w] assms(2) by simp

lemma ordered_from_snoc:
  "ordered_from nr seen (tr @ [ev]) = (ordered_from nr seen tr \<and> event_ok nr (seen @ tr) ev)"
  by (induction tr arbitrary: seen) auto

lemma trace_ordered_snoc:
  "trace_ordered nr (tr @ [ev]) = (trace_ordered nr tr \<and> event_ok nr tr ev)"
  by (simp add: trace_ordered_def ordered_from_snoc)




lemma nth_update_other: "xs ! i \<noteq> c \<Longrightarrow> xs ! k = c \<Longrightarrow> xs[i := v] ! k = c"
  by (metis nth_list_update_neq)

lemma stop_ok_cong:
  assumes "running io' = running io" "reader_threads io' = reader_threads io"
    "writer_threads io' = writer_threads io"
  shows "stop_ok st nr nw io' tr = stop_ok st nr nw io tr"
  using assms by (cases st) simp_all

lemma stop_ok_reader:
  assumes "stop_ok st nr nw io tr" "reader_threads io ! i \<noteq> R_Returned"
    "running io' = running io" "reader_threads io' = (reader_threads io)[i := pc]"
    "writer_threads io' = writer_threads io"
  shows "stop_ok st nr nw io' tr"
  using assms by (cases st) (auto simp: nth_update_other)

lemma stop_ok_writer:
  assumes "stop_ok st nr nw io tr" "writer_threads io ! j \<noteq> W_Returned"
    "running io' = running io" "reader_threads io' = reader_threads io"
    "writer_threads io' = (writer_threads io)[j := w]"
  shows "stop_ok st nr nw io' tr"
  using assms by (cases st) (auto simp: nth_update_other)

lemma stop_ok_writer_exit:
  assumes "stop_ok st nr nw io tr" "writer_threads io ! j \<noteq> W_Returned" "running io = 0"
    "running io' = running io" "reader_threads io' = reader_threads io"
    "writer_threads io' = (writer_threads io)[j := w]"
  shows "stop_ok st nr nw io' (tr @ [Writer_Exit j k])"
  using assms by (cases st) (auto simp: nth_update_other joins_def)

lemma engine_invI:
  assumes "nat (num_readers (eng_io s)) = nr" "nat (num_writers (eng_io s)) = nw"
    "length (reader_threads (eng_io s)) = nr" "length (writer_threads (eng_io s)) = nw"
    "R_None \<notin> set (reader_threads (eng_io s))" "W_None \<notin> set (writer_threads (eng_io s))"
    "write_queue_size (eng_io s) = int (length (write_queue (eng_io s)))"
    "eng_enqueued s = eng_taken s @ write_queue (eng_io s)"
    "mset (eng_taken s) = mset (eng_freed s) + held_all (writer_threads (eng_io s))"
    "trace_ordered nr (eng_trace s)"
    "\<And>j. j < nw \<Longrightarrow> writer_threads (eng_io s) ! j = W_Returned \<Longrightarrow>
       Writer_Exit j 0 \<in> set (eng_trace s)"
    "stop_ok (eng_stop s) nr nw (eng_io s) (eng_trace s)"
  shows "engine_inv nr nw s"
  using assms by (simp add: engine_inv_def)

lemma engine_invD:
  assumes "engine_inv nr nw s"
  shows "nat (num_readers (eng_io s)) = nr" "nat (num_writers (eng_io s)) = nw"
    "length (reader_threads (eng_io s)) = nr" "length (writer_threads (eng_io s)) = nw"
    "R_None \<notin> set (reader_threads (eng_io s))" "W_None \<notin> set (writer_threads (eng_io s))"
    "write_queue_size (eng_io s) = int (length (write_queue (eng_io s)))"
    "eng_enqueued s = eng_taken s @ write_queue (eng_io s)"
    "mset (eng_taken s) = mset (eng_freed s) + held_all (writer_threads (eng_io s))"
    "trace_ordered nr (eng_trace s)"
    "\<And>j. j < nw \<Longrightarrow> writer_threads (eng_io s) ! j = W_Returned \<Longrightarrow>
       Writer_Exit j 0 \<in> set (eng_trace s)"
    "stop_ok (eng_stop s) nr nw (eng_io s) (eng_trace s)"
  using assms by (simp_all add: engine_inv_def)

lemma produce_inv:
  assumes inv: "engine_inv nr nw s"
  shows "engine_inv nr nw (produce node_mem p s)"
proof (cases "fst (hev_tunnel_io_write node_mem (eng_io s) p) = 0")
  case False
  then have "produce node_mem p s = s"
    by (auto simp: produce_def hev_tunnel_io_write_def split: if_splits)
  with inv show ?thesis by simp
next
  case True
  let ?io = "eng_io s"
  let ?io' = "?io \<lparr> write_queue := write_queue ?io @ [p],
      write_queue_size := write_queue_size ?io + 1 \<rparr>"
  from True have s': "produce node_mem p s =
      s \<lparr> eng_io := ?io', eng_enqueued := eng_enqueued s @ [p] \<rparr>"
    by (auto simp: produce_def hev_tunnel_io_write_def split: if_splits)
  note f = engine_invD [OF inv]
  have so: "stop_ok (eng_stop s) nr nw ?io' (eng_trace s)"
    using f(12) stop_ok_cong [of ?io' ?io "eng_stop s" nr nw "eng_trace s"] by simp
  show ?thesis
    unfolding s'
    by (rule engine_invI) (use f so in \<open>simp_all\<close>)
qed

lemma reader_stepD:
  assumes "reader_step r mem i io = Some io'"
  shows "i < length (reader_threads io) \<and> reader_threads io ! i \<noteq> R_Returned \<and>
     (\<exists>pc. pc \<noteq> R_None \<and> reader_threads io' = (reader_threads io)[i := pc]) \<and>
     running io' = running io \<and> writer_threads io' = writer_threads io \<and>
     num_readers io' = num_readers io \<and> num_writers io' = num_writers io \<and>
     write_queue io' = write_queue io \<and> write_queue_size io' = write_queue_size io"
  using assms
  by (auto simp: reader_step_def split: if_splits reader_pc.splits read_result.splits)

lemma reader_inv:
  assumes inv: "engine_inv nr nw s" and step: "reader_step r mem i (eng_io s) = Some io'"
  shows "engine_inv nr nw (s \<lparr> eng_io := io' \<rparr>)"
proof -
  let ?io = "eng_io s"
  note f = engine_invD [OF inv]
  from reader_stepD [OF step] obtain pc where
    d: "i < length (reader_threads ?io)" "reader_threads ?io ! i \<noteq> R_Returned" "pc \<noteq> R_None"
      "reader_threads io' = (reader_threads ?io)[i := pc]"
      "running io' = running ?io" "writer_threads io' = writer_threads ?io"
      "num_readers io' = num_readers ?io" "num_writers io' = num_writers ?io"
      "write_queue io' = write_queue ?io" "write_queue_size io' = write_queue_size ?io"
    by blast
  have so': "stop_ok (eng_stop s) nr nw io' (eng_trace s)"
    by (rule stop_ok_reader [OF f(12) d(2) d(5) d(4) d(6)])
  from f(5) d(3) have nn: "R_None \<notin> set ((reader_threads ?io)[i := pc])"
    using set_update_subset_insert [of "reader_threads ?io" i pc] by auto
  show ?thesis
    by (rule engine_invI) (use f so' nn d in \<open>simp_all\<close>)
qed

lemma writer_keep:
  assumes inv: "engine_inv nr nw s" and j: "j < length (writer_threads (eng_io s))"
    and nret: "writer_threads (eng_io s) ! j \<noteq> W_Returned"
    and w: "w \<noteq> W_None" "w \<noteq> W_Returned"
    and io': "running io' = running (eng_io s)" "reader_threads io' = reader_threads (eng_io s)"
      "writer_threads io' = (writer_threads (eng_io s))[j := w]"
      "num_readers io' = num_readers (eng_io s)" "num_writers io' = num_writers (eng_io s)"
      "write_queue_size io' = int (length (write_queue io'))"
    and s': "eng_io s' = io'" "eng_stop s' = eng_stop s" "eng_trace s' = eng_trace s"
    and pk: "eng_enqueued s' = eng_taken s' @ write_queue io'"
      "mset (eng_taken s') = mset (eng_freed s') + held_all ((writer_threads (eng_io s))[j := w])"
  shows "engine_inv nr nw s'"
proof (rule engine_invI)
  note f = engine_invD [OF inv]
  show "stop_ok (eng_stop s') nr nw (eng_io s') (eng_trace s')"
    unfolding s' by (rule stop_ok_writer [OF f(12) nret io'(1,2,3)])
  show "W_None \<notin> set (writer_threads (eng_io s'))"
    using f(6) w(1) set_update_subset_insert [of "writer_threads (eng_io s)" j w]
    by (auto simp: s' io')
  fix k
  assume "k < nw" "writer_threads (eng_io s') ! k = W_Returned"
  then show "Writer_Exit k 0 \<in> set (eng_trace s')"
    using f(11) [of k] w(2) j by (cases "k = j") (simp_all add: s' io')
qed (use engine_invD [OF inv] io' s' pk in \<open>simp_all\<close>)

lemma writer_inv:
  assumes inv: "engine_inv nr nw s" and step: "writer_step e j s = Some s'"
  shows "engine_inv nr nw s'"
proof -
  let ?io = "eng_io s"
  let ?ws = "writer_threads ?io"
  note f = engine_invD [OF inv]
  from step have j: "j < length ?ws"
    by (simp add: writer_step_def Let_def split: if_splits)
  show ?thesis
  proof (cases "?ws ! j")
    case W_None
    with step j show ?thesis
      by (simp add: writer_step_def Let_def)
  next
    case W_Returned
    with step j show ?thesis
      by (simp add: writer_step_def Let_def)
  next
    case W_Test
    then have nret: "?ws ! j \<noteq> W_Returned" by simp
    show ?thesis
    proof (cases "running ?io \<noteq> 0 \<or> write_queue_size ?io > 0")
      case True
      with step j W_Test have s': "s' = s \<lparr> eng_io := ?io \<lparr> writer_threads := ?ws[j := W_Locked] \<rparr> \<rparr>"
        by (simp add: writer_step_def Let_def)
      have h: "held_all (?ws[j := W_Locked]) = held_all ?ws"
        by (rule held_all_same [OF j]) (simp add: W_Test)
      show ?thesis
        by (rule writer_keep [OF inv j nret, of W_Locked "?io \<lparr> writer_threads := ?ws[j := W_Locked] \<rparr>"])
          (use f h in \<open>simp_all add: s'\<close>)
    next
      case False
      then have r0: "running ?io = 0" and sz: "write_queue_size ?io = 0"
        using f(7) by auto
      let ?io' = "?io \<lparr> writer_threads := ?ws[j := W_Returned] \<rparr>"
      from step j W_Test False have s': "s' = s \<lparr> eng_io := ?io',
          eng_trace := eng_trace s @ [Writer_Exit j 0] \<rparr>"
        by (simp add: writer_step_def Let_def sz)
      have so: "stop_ok (eng_stop s) nr nw ?io' (eng_trace s @ [Writer_Exit j 0])"
        by (rule stop_ok_writer_exit [OF f(12) nret r0]) simp_all
      have h: "held_all (?ws[j := W_Returned]) = held_all ?ws"
        by (rule held_all_same [OF j]) (simp add: W_Test)
      have tr: "trace_ordered nr (eng_trace s @ [Writer_Exit j 0])"
        using f(10) by (simp add: trace_ordered_snoc event_ok_def)
      have nn: "W_None \<notin> set (?ws[j := W_Returned])"
        using f(6) set_update_subset_insert [of ?ws j W_Returned] by auto
      show ?thesis
        unfolding s'
      proof (rule engine_invI)
        fix k
        assume "k < nw" "writer_threads (eng_io (s \<lparr> eng_io := ?io',
          eng_trace := eng_trace s @ [Writer_Exit j 0] \<rparr>)) ! k = W_Returned"
        then show "Writer_Exit k 0 \<in> set (eng_trace (s \<lparr> eng_io := ?io',
          eng_trace := eng_trace s @ [Writer_Exit j 0] \<rparr>))"
          using f(11) [of k] j by (cases "k = j") simp_all
      qed (use f so h tr nn in \<open>simp_all\<close>)
    qed
  next
    case W_Locked
    then have nret: "?ws ! j \<noteq> W_Returned" by simp
    let ?batch = "take WRITE_BATCH_SIZE (write_queue ?io)"
    let ?io1 = "?io \<lparr> write_queue := drop WRITE_BATCH_SIZE (write_queue ?io),
        write_queue_size := write_queue_size ?io -
          int (min WRITE_BATCH_SIZE (length (write_queue ?io))),
        writer_threads := ?ws[j := W_Batch ?batch] \<rparr>"
    from step j W_Locked have s': "s' = s \<lparr> eng_io := ?io1, eng_taken := eng_taken s @ ?batch \<rparr>"
      by (simp add: writer_step_def Let_def fill_batch_eq split: if_splits)
    have h: "held_all (?ws[j := W_Batch ?batch]) = held_all ?ws + mset ?batch"
      using held_all_update [OF j, of "W_Batch ?batch"] by (simp add: W_Locked)
    have sz: "write_queue_size ?io1 = int (length (write_queue ?io1))"
      using f(7) by (simp add: min_def)
    show ?thesis
      by (rule writer_keep [OF inv j nret, of "W_Batch ?batch" ?io1])
        (use f h sz in \<open>simp_all add: s'\<close>)
  next
    case (W_Batch b)
    then have nret: "?ws ! j \<noteq> W_Returned" by simp
    show ?thesis
    proof (cases b)
      case Nil
      with step j W_Batch have s': "s' = s \<lparr> eng_io := ?io \<lparr> writer_threads := ?ws[j := W_Test] \<rparr> \<rparr>"
        by (simp add: writer_step_def Let_def)
      have h: "held_all (?ws[j := W_Test]) = held_all ?ws"
        by (rule held_all_same [OF j]) (simp add: W_Batch Nil)
      show ?thesis
        by (rule writer_keep [OF inv j nret, of W_Test "?io \<lparr> writer_threads := ?ws[j := W_Test] \<rparr>"])
          (use f h in \<open>simp_all add: s'\<close>)
    next
      case (Cons p ps)
      let ?io2 = "(write_packet e p ?io) \<lparr> writer_threads := ?ws[j := W_Batch ps] \<rparr>"
      from step j W_Batch Cons have s': "s' = s \<lparr> eng_io := ?io2, eng_freed := eng_freed s @ [p] \<rparr>"
        by (simp add: writer_step_def Let_def)
      have "held_all (?ws[j := W_Batch ps]) + mset (p # ps) = held_all ?ws + mset ps"
        using held_all_update [OF j, of "W_Batch ps"] by (simp add: W_Batch Cons)
      then have h: "held_all ?ws = held_all (?ws[j := W_Batch ps]) + {#p#}"
        by simp
      show ?thesis
        by (rule writer_keep [OF inv j nret, of "W_Batch ps" ?io2])
          (use f h in \<open>simp_all add: s' write_packet_keeps\<close>)
    qed
  qed
qed

lemma stop_call_inv:
  assumes inv: "engine_inv nr nw s" and step: "stop_call s = Some s'"
  shows "engine_inv nr nw s'"
proof (cases "eng_stop s")
  case S_Idle
  with inv have "running (eng_io s) \<noteq> 0" "eng_trace s = []"
    by (simp_all add: engine_inv_def)
  with step S_Idle inv show ?thesis
    by (auto simp: stop_call_def engine_inv_def joins_def)
next
  case S_Done
  with inv have "running (eng_io s) = 0"
    by (simp add: engine_inv_def)
  with step S_Done inv show ?thesis
    by (auto simp: stop_call_def engine_inv_def)
next
  case (S_Join_Readers i)
  with step show ?thesis by (simp add: stop_call_def)
next
  case (S_Join_Writers j)
  with step show ?thesis by (simp add: stop_call_def)
qed

lemma joins_snoc: "joins (tr @ [ev]) = joins tr @ (if is_join ev then [ev] else [])"
  by (simp add: joins_def)

lemma join_reader_seen:
  assumes "joins tr = map Join_Reader [0..<nr] @ rest" "i < nr"
  shows "Join_Reader i \<in> set tr"
proof -
  from assms have "Join_Reader i \<in> set (joins tr)"
    by auto
  then show ?thesis
    by (simp add: joins_def)
qed

lemma stop_step_inv:
  assumes inv: "engine_inv nr nw s" and step: "stop_step s = Some s'"
  shows "engine_inv nr nw s'"
proof -
  let ?io = "eng_io s"
  from inv have f: "nat (num_readers ?io) = nr" "nat (num_writers ?io) = nw"
    "length (reader_threads ?io) = nr" "length (writer_threads ?io) = nw"
    "trace_ordered nr (eng_trace s)"
    "\<forall>j<nw. writer_threads ?io ! j = W_Returned \<longrightarrow> Writer_Exit j 0 \<in> set (eng_trace s)"
    "stop_ok (eng_stop s) nr nw ?io (eng_trace s)"
    by (simp_all add: engine_inv_def)
  have lr: "(int i < num_readers ?io) = (i < nr)" for i
    using f(1) by auto
  have lw: "(int j < num_writers ?io) = (j < nw)" for j
    using f(2) by auto
  show ?thesis
  proof (cases "eng_stop s")
    case S_Idle
    with step show ?thesis by (simp add: stop_step_def)
  next
    case S_Done
    with step show ?thesis by (simp add: stop_step_def)
  next
    case (S_Join_Readers i)
    with f(7) have so: "running ?io = 0" "i \<le> nr" "joins (eng_trace s) = map Join_Reader [0..<i]"
      "\<forall>k<i. reader_threads ?io ! k = R_Returned"
      by simp_all
    show ?thesis
    proof (cases "i < nr")
      case True
      with step S_Join_Readers have ret: "reader_threads ?io ! i = R_Returned"
        and s': "s' = s \<lparr> eng_stop := S_Join_Readers (Suc i),
          eng_trace := eng_trace s @ [Join_Reader i] \<rparr>"
        by (simp_all add: stop_step_def Let_def lr split: if_splits)
      have "stop_ok (S_Join_Readers (Suc i)) nr nw ?io (eng_trace s @ [Join_Reader i])"
        using so True ret by (auto simp: joins_snoc less_Suc_eq)
      moreover have "trace_ordered nr (eng_trace s @ [Join_Reader i])"
        using f(5) by (simp add: trace_ordered_snoc event_ok_def)
      ultimately show ?thesis
        unfolding s' using inv by (simp add: engine_inv_def)
    next
      case False
      with so(2) have "i = nr" by simp
      from step S_Join_Readers False have s': "s' = s \<lparr> eng_stop := S_Join_Writers 0 \<rparr>"
        by (simp add: stop_step_def Let_def lr)
      have "stop_ok (S_Join_Writers 0) nr nw ?io (eng_trace s)"
        using so \<open>i = nr\<close> by simp
      then show ?thesis
        unfolding s' using inv by (simp add: engine_inv_def)
    qed
  next
    case (S_Join_Writers j)
    with f(7) have so: "running ?io = 0" "j \<le> nw"
      "joins (eng_trace s) = map Join_Reader [0..<nr] @ map Join_Writer [0..<j]"
      "\<forall>k<nr. reader_threads ?io ! k = R_Returned"
      "\<forall>k<j. writer_threads ?io ! k = W_Returned"
      by simp_all
    show ?thesis
    proof (cases "j < nw")
      case True
      with step S_Join_Writers have ret: "writer_threads ?io ! j = W_Returned"
        and s': "s' = s \<lparr> eng_stop := S_Join_Writers (Suc j),
          eng_trace := eng_trace s @ [Join_Writer j] \<rparr>"
        by (simp_all add: stop_step_def Let_def lw split: if_splits)
      have "stop_ok (S_Join_Writers (Suc j)) nr nw ?io (eng_trace s @ [Join_Writer j])"
        using so True ret by (auto simp: joins_snoc less_Suc_eq)
      moreover have "Writer_Exit j 0 \<in> set (eng_trace s)"
        using f(6) True ret by simp
      moreover have "\<forall>i<nr. Join_Reader i \<in> set (eng_trace s)"
        using join_reader_seen [OF so(3)] by simp
      ultimately have "stop_ok (S_Join_Writers (Suc j)) nr nw ?io (eng_trace s @ [Join_Writer j])"
        "trace_ordered nr (eng_trace s @ [Join_Writer j])"
        using f(5) by (simp_all add: trace_ordered_snoc event_ok_def list_all_iff)
      then show ?thesis
        unfolding s' using inv by (simp add: engine_inv_def)
    next
      case False
      with so(2) have "j = nw" by simp
      from step S_Join_Writers False have s': "s' = s \<lparr> eng_stop := S_Done \<rparr>"
        by (simp add: stop_step_def Let_def lw)
      have "stop_ok S_Done nr nw ?io (eng_trace s)"
        using so \<open>j = nw\<close> by (simp add: all_joins_def)
      then show ?thesis
        unfolding s' using inv by (simp add: engine_inv_def)
    qed
  qed
qed

lemma engine_step_inv:
  assumes "engine_inv nr nw s" "engine_step e a s = Some s'"
  shows "engine_inv nr nw s'"
proof (cases a)
  case (Produce node_mem p)
  with assms produce_inv [of nr nw s node_mem p] show ?thesis by auto
next
  case (Reader_Step i r mem)
  with assms reader_inv [of nr nw s r mem i] show ?thesis
    by (auto split: option.splits)
next
  case (Writer_Step j)
  with assms writer_inv [of nr nw s e j s'] show ?thesis by auto
next
  case Stop_Call
  with assms stop_call_inv [of nr nw s s'] show ?thesis by auto
next
  case Stop_Step
  with assms stop_step_inv [of nr nw s s'] show ?thesis by auto
qed

lemma engine_exec_inv:
  assumes "engine_exec e acts s = Some s'" "engine_inv nr nw s"
  shows "engine_inv nr nw s'"
  using assms
proof (induction acts arbitrary: s)
  case Nil
  then show ?case by simp
next
  case (Cons a acts)
  from Cons.prems(1) obtain s1 where s1: "engine_step e a s = Some s1"
    "engine_exec e acts s1 = Some s'"
    by (auto split: option.splits)
  from Cons.IH [OF s1(2) engine_step_inv [OF Cons.prems(2) s1(1)]] show ?case .
qed

text \<open>
  A call of \<open>hev_tunnel_io_stop\<close> that returns is a schedule that starts with the
  call and ends with the call returned.
\<close>

lemma hev_tunnel_io_stop_exec:
  "hev_tunnel_io_stop e sched s = Some s' \<longleftrightarrow>
     engine_exec e (Stop_Call # sched) s = Some s' \<and> eng_stop s' = S_Done"
  by (auto simp: hev_tunnel_io_stop_def split: option.splits)

lemma held_all_replicate: "held_all (replicate n W_Test) = {#}"
  by (induction n) (simp_all add: held_all_def)

lemma engine_ready_inv:
  assumes "engine_ready io"
  shows "engine_inv (nat (num_readers io)) (nat (num_writers io)) (engine_of io)"
  using assms
  by (simp add: engine_ready_def engine_inv_def engine_of_def trace_ordered_def
      held_all_replicate)

lemma started_engine_ready:
  assumes "hev_tunnel_io_start True io0 = (0, io)"
    "write_queue_size io0 = int (length (write_queue io0))"
  shows "engine_ready io"
  using assms by (auto simp: hev_tunnel_io_start_def engine_ready_def split: if_splits)

lemma new_io_consistent:
  "hev_tunnel_io_new True ncpus tfd m = Some io \<Longrightarrow>
     running io = 0 \<and> write_queue io = [] \<and> write_queue_size io = 0 \<and>
     num_readers io = num_writers io \<and> (num_writers io = 1 \<or> num_writers io = 2) \<and>
     tx_packets io = 0 \<and> tx_bytes io = 0 \<and> rx_packets io = 0 \<and> rx_bytes io = 0"
  by (auto simp: hev_tunnel_io_new_def Let_def split: if_splits)

lemma write_consistent:
  "write_queue_size io = int (length (write_queue io)) \<Longrightarrow>
     write_queue_size (snd (hev_tunnel_io_write node_mem io p)) =
       int (length (write_queue (snd (hev_tunnel_io_write node_mem io p))))"
  by (simp add: hev_tunnel_io_write_def)

lemma sum_list_map_update:
  fixes f :: "'a \<Rightarrow> nat"
  assumes "i < length xs"
  shows "sum_list (map f (xs[i := v])) + f (xs ! i) = sum_list (map f xs) + f v"
  using assms
proof (induction xs arbitrary: i)
  case Nil
  then show ?case by simp
next
  case (Cons a xs)
  show ?case
  proof (cases i)
    case 0
    then show ?thesis by simp
  next
    case (Suc k)
    with Cons.prems have "k < length xs" by simp
    from Cons.IH [OF this] Suc show ?thesis by simp
  qed
qed

lemma writer_rank_mono: "m \<le> n \<Longrightarrow> writer_rank m w \<le> writer_rank n w"
  by (cases w) auto

lemma writer_ranks_mono:
  "m \<le> n \<Longrightarrow> sum_list (map (writer_rank m) ws) \<le> sum_list (map (writer_rank n) ws)"
  by (induction ws) (simp_all add: add_mono writer_rank_mono)

lemma take_pays:
  fixes A B C n L L' r :: nat
  assumes "A + 3 = B + r" "B \<le> C" "L = n + L'" "1 \<le> n" "r \<le> n + 5"
  shows "4 * L' + A < 4 * L + C"
  using assms by linarith

lemma take_none:
  fixes A B C L L' r :: nat
  assumes "A + 3 = B + r" "B \<le> C" "r = 2" "L' = L"
  shows "4 * L' + A < 4 * L + C"
  using assms by linarith

lemma reader_step_less:
  assumes "reader_step r mem i io = Some io'" "running io = 0"
  shows "sum_list (map reader_rank (reader_threads io')) <
           sum_list (map reader_rank (reader_threads io)) \<and>
     writer_threads io' = writer_threads io \<and> write_queue io' = write_queue io \<and>
     num_readers io' = num_readers io \<and> num_writers io' = num_writers io"
proof -
  from assms(1) have i: "i < length (reader_threads io)"
    by (simp add: reader_step_def split: if_splits)
  from assms obtain pc where pc: "reader_threads io' = (reader_threads io)[i := pc]"
    "reader_rank pc < reader_rank (reader_threads io ! i)"
    "writer_threads io' = writer_threads io" "write_queue io' = write_queue io"
    "num_readers io' = num_readers io" "num_writers io' = num_writers io"
    by (auto simp: reader_step_def split: if_splits reader_pc.splits read_result.splits)
  from sum_list_map_update [OF i, of reader_rank pc] pc(2)
  have "sum_list (map reader_rank ((reader_threads io)[i := pc])) <
      sum_list (map reader_rank (reader_threads io))"
    by linarith
  with pc show ?thesis by simp
qed

lemma writer_step_less:
  assumes inv: "engine_inv nr nw s" and step: "writer_step e j s = Some s'"
    and r0: "running (eng_io s) = 0"
  shows "steps_left s' < steps_left s"
proof -
  let ?io = "eng_io s"
  let ?ws = "writer_threads ?io"
  let ?L = "length (write_queue ?io)"
  note f = engine_invD [OF inv]
  from step have j: "j < length ?ws"
    by (simp add: writer_step_def Let_def split: if_splits)
  note upd = sum_list_map_update [OF j, of "writer_rank ?L"]
  have sz: "(write_queue_size ?io > 0) = (0 < ?L)"
    using f(7) by simp
  show ?thesis
  proof (cases "?ws ! j")
    case W_None
    with step j show ?thesis
      by (simp add: writer_step_def Let_def)
  next
    case W_Returned
    with step j show ?thesis
      by (simp add: writer_step_def Let_def)
  next
    case W_Test
    show ?thesis
    proof (cases "0 < ?L")
      case True
      with step j W_Test sz have s': "s' = s \<lparr> eng_io := ?io \<lparr> writer_threads := ?ws[j := W_Locked] \<rparr> \<rparr>"
        by (simp add: writer_step_def Let_def)
      from upd [of W_Locked] W_Test True show ?thesis
        by (simp add: steps_left_def s')
    next
      case False
      with step j W_Test sz r0 have s': "s' = s \<lparr> eng_io := ?io \<lparr> writer_threads := ?ws[j := W_Returned] \<rparr>,
          eng_trace := eng_trace s @ [Writer_Exit j (write_queue_size ?io)] \<rparr>"
        by (simp add: writer_step_def Let_def)
      from upd [of W_Returned] W_Test False show ?thesis
        by (simp add: steps_left_def s')
    qed
  next
    case W_Locked
    let ?batch = "take WRITE_BATCH_SIZE (write_queue ?io)"
    let ?L' = "length (drop WRITE_BATCH_SIZE (write_queue ?io))"
    let ?io1 = "?io \<lparr> write_queue := drop WRITE_BATCH_SIZE (write_queue ?io),
        write_queue_size := write_queue_size ?io -
          int (min WRITE_BATCH_SIZE (length (write_queue ?io))),
        writer_threads := ?ws[j := W_Batch ?batch] \<rparr>"
    from step j W_Locked r0 have s': "s' = s \<lparr> eng_io := ?io1, eng_taken := eng_taken s @ ?batch \<rparr>"
      by (simp add: writer_step_def Let_def fill_batch_eq)
    have len: "?L = length ?batch + ?L'"
      by simp
    have le: "?L' \<le> ?L" by simp
    have b0: "length ?batch = 0 \<Longrightarrow> write_queue ?io = []"
      by (auto simp: WRITE_BATCH_SIZE_def min_def split: if_splits)
    have u: "sum_list (map (writer_rank ?L') (?ws[j := W_Batch ?batch])) + 3 =
        sum_list (map (writer_rank ?L') ?ws) + writer_rank ?L' (W_Batch ?batch)"
      using sum_list_map_update [OF j, of "writer_rank ?L'" "W_Batch ?batch"] W_Locked by simp
    have m: "sum_list (map (writer_rank ?L') ?ws) \<le> sum_list (map (writer_rank ?L) ?ws)"
      by (rule writer_ranks_mono [OF le])
    have "4 * ?L' + sum_list (map (writer_rank ?L') (?ws[j := W_Batch ?batch])) <
        4 * ?L + sum_list (map (writer_rank ?L) ?ws)"
    proof (cases "length ?batch = 0")
      case True
      from b0 [OF True] have r2: "writer_rank ?L' (W_Batch ?batch) = 2" and same: "?L' = ?L"
        by simp_all
      show ?thesis
        by (rule take_none [OF u m r2 same])
    next
      case False
      then have n1: "1 \<le> length ?batch"
        by linarith
      have r5: "writer_rank ?L' (W_Batch ?batch) \<le> length ?batch + 5"
        by simp
      show ?thesis
        by (rule take_pays [OF u m len n1 r5])
    qed
    then show ?thesis
      by (simp add: steps_left_def s')
  next
    case (W_Batch b)
    show ?thesis
    proof (cases b)
      case Nil
      with step j W_Batch have s': "s' = s \<lparr> eng_io := ?io \<lparr> writer_threads := ?ws[j := W_Test] \<rparr> \<rparr>"
        by (simp add: writer_step_def Let_def)
      from upd [of W_Test] W_Batch Nil show ?thesis
        by (simp add: steps_left_def s')
    next
      case (Cons p ps)
      let ?io2 = "(write_packet e p ?io) \<lparr> writer_threads := ?ws[j := W_Batch ps] \<rparr>"
      from step j W_Batch Cons have s': "s' = s \<lparr> eng_io := ?io2, eng_freed := eng_freed s @ [p] \<rparr>"
        by (simp add: writer_step_def Let_def)
      from upd [of "W_Batch ps"] W_Batch Cons show ?thesis
        by (simp add: steps_left_def s' write_packet_keeps)
    qed
  qed
qed

lemma stop_step_less:
  assumes "stop_step s = Some s'"
  shows "steps_left s' < steps_left s"
  using assms
  by (cases "eng_stop s")
    (auto simp: stop_step_def steps_left_def Let_def split: if_splits)

lemma thread_step_less:
  assumes inv: "engine_inv nr nw s" and stop: "eng_stop s \<noteq> S_Idle"
    and a: "thread_action a" and step: "engine_step e a s = Some s'"
  shows "steps_left s' < steps_left s \<and> eng_stop s' \<noteq> S_Idle"
proof -
  from engine_invD(12) [OF inv] stop have r0: "running (eng_io s) = 0"
    by (cases "eng_stop s") simp_all
  show ?thesis
  proof (cases a)
    case (Produce node_mem p)
    with a show ?thesis by simp
  next
    case Stop_Call
    with a show ?thesis by simp
  next
    case (Reader_Step i r mem)
    with step obtain io' where io': "reader_step r mem i (eng_io s) = Some io'"
      and s': "s' = s \<lparr> eng_io := io' \<rparr>"
      by (auto split: option.splits)
    from reader_step_less [OF io' r0] stop show ?thesis
      by (simp add: steps_left_def s')
  next
    case (Writer_Step j)
    with step have w: "writer_step e j s = Some s'" by simp
    then have "eng_stop s' = eng_stop s"
      by (auto simp: writer_step_def Let_def fill_batch_eq
          split: if_splits writer_pc.splits list.splits)
    with writer_step_less [OF inv w r0] stop show ?thesis by simp
  next
    case Stop_Step
    with step have w: "stop_step s = Some s'" by simp
    then have "eng_stop s' \<noteq> S_Idle"
      by (auto simp: stop_step_def Let_def split: if_splits stop_pc.splits)
    with stop_step_less [OF w] show ?thesis by simp
  qed
qed

lemma thread_step_enabled:
  assumes inv: "engine_inv nr nw s" and stop: "eng_stop s \<noteq> S_Idle" "eng_stop s \<noteq> S_Done"
  shows "\<exists>a s'. thread_action a \<and> engine_step e a s = Some s'"
proof -
  let ?io = "eng_io s"
  note f = engine_invD [OF inv]
  from f(12) stop have r0: "running ?io = 0"
    by (cases "eng_stop s") simp_all
  have lr: "(int i < num_readers ?io) = (i < nr)" for i
    using f(1) by auto
  have lw: "(int j < num_writers ?io) = (j < nw)" for j
    using f(2) by auto
  show ?thesis
  proof (cases "eng_stop s")
    case S_Idle
    with stop show ?thesis by simp
  next
    case S_Done
    with stop show ?thesis by simp
  next
    case (S_Join_Readers i)
    show ?thesis
    proof (cases "i < nr \<and> reader_threads ?io ! i \<noteq> R_Returned")
      case False
      then have "\<exists>s'. engine_step e Stop_Step s = Some s'"
        using S_Join_Readers f(3) by (auto simp: stop_step_def Let_def lr)
      then show ?thesis
        by (metis thread_action.simps(5))
    next
      case True
      then have "reader_threads ?io ! i \<in> set (reader_threads ?io)"
        using f(3) by simp
      with f(5) have "reader_threads ?io ! i \<noteq> R_None"
        by metis
      with True f(3) have "\<exists>io'. reader_step Read_Again True i ?io = Some io'"
        by (cases "reader_threads ?io ! i") (simp_all add: reader_step_def)
      then have "\<exists>s'. engine_step e (Reader_Step i Read_Again True) s = Some s'"
        by auto
      then show ?thesis
        by (metis thread_action.simps(3))
    qed
  next
    case (S_Join_Writers j)
    show ?thesis
    proof (cases "j < nw \<and> writer_threads ?io ! j \<noteq> W_Returned")
      case False
      then have "\<exists>s'. engine_step e Stop_Step s = Some s'"
        using S_Join_Writers f(4) by (auto simp: stop_step_def Let_def lw)
      then show ?thesis
        by (metis thread_action.simps(5))
    next
      case True
      then have "writer_threads ?io ! j \<in> set (writer_threads ?io)"
        using f(4) by simp
      with f(6) have nn: "writer_threads ?io ! j \<noteq> W_None"
        by metis
      have "\<exists>s'. writer_step e j s = Some s'"
      proof (cases "writer_threads ?io ! j")
        case (W_Batch b)
        with True f(4) show ?thesis
          by (cases b) (simp_all add: writer_step_def Let_def)
      qed (use True f(4) nn r0 in \<open>auto simp: writer_step_def Let_def fill_batch_eq\<close>)
      then have "\<exists>s'. engine_step e (Writer_Step j) s = Some s'"
        by simp
      then show ?thesis
        by (metis thread_action.simps(4))
    qed
  qed
qed

lemma engine_exec_append:
  "engine_exec e (as @ bs) s =
     (case engine_exec e as s of None \<Rightarrow> None | Some s' \<Rightarrow> engine_exec e bs s')"
  by (induction as arbitrary: s) (simp_all split: option.splits)

text \<open>
  Once \<open>stop\<close> has been called it can return: from every state that the engine can
  reach, the threads and the join loops have steps that bring the call to its
  return, and at most \<open>steps_left\<close> of them.
\<close>

lemma stop_can_return_from:
  assumes "engine_inv nr nw s" "eng_stop s \<noteq> S_Idle"
  shows "\<exists>acts s'. list_all thread_action acts \<and> length acts \<le> steps_left s \<and>
           engine_exec e acts s = Some s' \<and> eng_stop s' = S_Done"
  using assms
proof (induction "steps_left s" arbitrary: s rule: less_induct)
  case less
  show ?case
  proof (cases "eng_stop s = S_Done")
    case True
    then have "list_all thread_action [] \<and> length ([]::engine_action list) \<le> steps_left s \<and>
        engine_exec e [] s = Some s \<and> eng_stop s = S_Done"
      by simp
    then show ?thesis by blast
  next
    case False
    from thread_step_enabled [OF less.prems(1) less.prems(2) False, of e]
    obtain a s1 where a: "thread_action a" "engine_step e a s = Some s1"
      by blast
    from thread_step_less [OF less.prems(1) less.prems(2) a]
    have lt: "steps_left s1 < steps_left s" and ni: "eng_stop s1 \<noteq> S_Idle"
      by simp_all
    have inv1: "engine_inv nr nw s1"
      by (rule engine_step_inv [OF less.prems(1) a(2)])
    from less.hyps [OF lt inv1 ni] obtain acts s' where
      r: "list_all thread_action acts" "length acts \<le> steps_left s1"
        "engine_exec e acts s1 = Some s'" "eng_stop s' = S_Done"
      by blast
    have "list_all thread_action (a # acts) \<and> length (a # acts) \<le> steps_left s \<and>
        engine_exec e (a # acts) s = Some s' \<and> eng_stop s' = S_Done"
      using a r lt by simp
    then show ?thesis by blast
  qed
qed

text \<open>
  And it does return when packets cease to arrive: every run of the threads and the
  join loops from such a state has at most \<open>steps_left\<close> steps, and a run that ends
  before \<open>stop\<close> has returned can go on.
\<close>

lemma thread_runs_bounded:
  assumes "engine_inv nr nw s" "eng_stop s \<noteq> S_Idle" "list_all thread_action acts"
    "engine_exec e acts s = Some s'"
  shows "length acts + steps_left s' \<le> steps_left s"
  using assms
proof (induction acts arbitrary: s)
  case Nil
  then show ?case by simp
next
  case (Cons a acts)
  from Cons.prems(4) obtain s1 where s1: "engine_step e a s = Some s1"
    "engine_exec e acts s1 = Some s'"
    by (auto split: option.splits)
  from Cons.prems(3) have a: "thread_action a" and as: "list_all thread_action acts"
    by simp_all
  from thread_step_less [OF Cons.prems(1,2) a s1(1)]
  have lt: "steps_left s1 < steps_left s" and ni: "eng_stop s1 \<noteq> S_Idle"
    by simp_all
  from Cons.IH [OF engine_step_inv [OF Cons.prems(1) s1(1)] ni as s1(2)] lt
  show ?case by simp
qed

lemma stop_returns_after_any_run:
  assumes ready: "engine_ready io" and run: "engine_exec e acts (engine_of io) = Some s"
    and called: "eng_stop s \<noteq> S_Idle"
  shows "\<exists>more s'. list_all thread_action more \<and> length more \<le> steps_left s \<and>
           engine_exec e (acts @ more) (engine_of io) = Some s' \<and> eng_stop s' = S_Done"
proof -
  have inv: "engine_inv (nat (num_readers io)) (nat (num_writers io)) s"
    by (rule engine_exec_inv [OF run engine_ready_inv [OF ready]])
  from stop_can_return_from [OF inv called, of e] obtain more s' where
    "list_all thread_action more" "length more \<le> steps_left s"
    "engine_exec e more s = Some s'" "eng_stop s' = S_Done"
    by blast
  with run show ?thesis
    by (auto simp: engine_exec_append)
qed




text \<open>
  The queue is empty when a writer returns, not when \<open>stop\<close> returns: a packet that
  is put into the queue after the last writer has returned stays there.  Here an
  engine with one reader and one writer is stopped, and a packet is written to it
  between the return of the writer and its join.
\<close>

lemma packet_after_writer_exit_stays:
  "let e = \<lparr> tun_write = (\<lambda>p. int (pb_tot_len p)), gather_mem = (\<lambda>_. True) \<rparr>;
       p = \<lparr> pb_id = 1, pb_len = 40, pb_tot_len = 40 \<rparr>;
       io = snd (hev_tunnel_io_start True (the (hev_tunnel_io_new True 2 3 1500)))
   in engine_ready io \<and>
      (\<exists>s. hev_tunnel_io_stop e
              [Reader_Step 0 Read_Again True, Reader_Step 0 Read_Again True, Stop_Step,
               Stop_Step, Writer_Step 0, Produce True p, Stop_Step, Stop_Step]
              (engine_of io) = Some s \<and>
         eng_trace s = [Join_Reader 0, Writer_Exit 0 0, Join_Writer 0] \<and>
         write_queue (eng_io s) = [p] \<and> write_queue_size (eng_io s) = 1 \<and>
         eng_freed s = [])"
  by (simp add: hev_tunnel_io_new_def hev_tunnel_io_start_def engine_ready_def
      hev_tunnel_io_stop_def engine_of_def produce_def hev_tunnel_io_write_def
      WRITE_QUEUE_SIZE_def reader_step_def writer_step_def stop_call_def
      stop_step_def Let_def)

text \<open>
  Claim C7, as stated, fails: after \<open>init\<close>, \<open>run\<close>, one packet of 60 bytes read and
  \<open>stop\<close>, the engine is not running but still exists, and \<open>stats\<close> reports its
  counters.
\<close>

theorem stats_after_stop_counterexample:
  "let e = \<lparr> tun_write = (\<lambda>p. int (pb_tot_len p)), gather_mem = (\<lambda>_. True) \<rparr>
   in case hev_socks5_tunnel_init True True 4 3 1500 initial_tunnel of (r0, g0) \<Rightarrow>
      case hev_socks5_tunnel_run True True g0 of (r1, g1) \<Rightarrow>
      case tunnel_threads e
             [Reader_Step 0 Read_Again True, Reader_Step 0 Read_Again True,
              Reader_Step 0 (Read_Bytes 60) True] g1 of
        None \<Rightarrow> False
      | Some g2 \<Rightarrow>
          (case hev_socks5_tunnel_stop e
                  [Reader_Step 0 Read_Again True, Reader_Step 1 Read_Again True,
                   Reader_Step 1 Read_Again True, Stop_Step, Stop_Step, Stop_Step,
                   Writer_Step 0, Writer_Step 1, Stop_Step, Stop_Step, Stop_Step] g2 of
             None \<Rightarrow> False
           | Some g3 \<Rightarrow>
               r0 = 0 \<and> r1 = 0 \<and> \<not> engine_running g3 \<and>
               hev_socks5_tunnel_stats g3 (Some 7) (Some 7) (Some 7) (Some 7) =
                 (Some 0, Some 0, Some 1, Some 60))"
  by (simp add: hev_socks5_tunnel_init_def hev_tunnel_io_new_def initial_tunnel_def
      hev_tunnel_io_set_read_callback_def hev_socks5_tunnel_run_def hev_tunnel_io_start_def
      tunnel_threads_def hev_socks5_tunnel_stop_def hev_tunnel_io_stop_def engine_of_def
      reader_step_def writer_step_def stop_call_def stop_step_def Let_def eval_nat_numeral
      engine_running_def hev_socks5_tunnel_stats_def hev_tunnel_io_get_stats_def)

text \<open>
  Claim C7, amended.  When no I/O engine exists (\<open>tunnel_io\<close> is null, as before
  \<open>init\<close>, after a failed \<open>init\<close> and after \<open>fini\<close>), \<open>stats\<close> writes zero into each
  non-null out-parameter.  When an engine exists, running or not, \<open>stats\<close> writes the
  engine's four counters; they are zero right after \<open>init\<close>.  After \<open>stop\<close> the engine
  still exists, and the steps of \<open>hev_tunnel_io_stop\<close> leave its counters as they
  are.
\<close>

theorem stats_without_engine:
  "(tunnel_io g = None \<longrightarrow>
      hev_socks5_tunnel_stats g txp txb rxp rxb =
        (map_option (\<lambda>_. 0) txp, map_option (\<lambda>_. 0) txb,
         map_option (\<lambda>_. 0) rxp, map_option (\<lambda>_. 0) rxb)) \<and>
   (\<forall>io. tunnel_io g = Some io \<longrightarrow>
      hev_socks5_tunnel_stats g txp txb rxp rxb =
        (map_option (\<lambda>_. tx_packets io) txp, map_option (\<lambda>_. tx_bytes io) txb,
         map_option (\<lambda>_. rx_packets io) rxp, map_option (\<lambda>_. rx_bytes io) rxb)) \<and>
   tunnel_io (hev_socks5_tunnel_fini g) = None \<and>
   tunnel_io initial_tunnel = None \<and>
   (\<forall>ncpus tfd m g'. hev_socks5_tunnel_init True True ncpus tfd m g = (0, g') \<longrightarrow>
      hev_socks5_tunnel_stats g' txp txb rxp rxb =
        (map_option (\<lambda>_. 0) txp, map_option (\<lambda>_. 0) txb,
         map_option (\<lambda>_. 0) rxp, map_option (\<lambda>_. 0) rxb)) \<and>
   (\<forall>steps_ok mem ncpus tfd m r g'.
      hev_socks5_tunnel_init steps_ok mem ncpus tfd m g = (r, g') \<longrightarrow> r \<noteq> 0 \<longrightarrow>
      tunnel_io g' = None) \<and>
   (\<forall>e sched g'. hev_socks5_tunnel_stop e sched g = Some g' \<longrightarrow>
      run g' = 0 \<and> (tunnel_io g' = None) = (tunnel_io g = None)) \<and>
   (\<forall>s s'. stop_call s = Some s' \<or> stop_step s = Some s' \<longrightarrow>
      tx_packets (eng_io s') = tx_packets (eng_io s) \<and>
      tx_bytes (eng_io s') = tx_bytes (eng_io s) \<and>
      rx_packets (eng_io s') = rx_packets (eng_io s) \<and>
      rx_bytes (eng_io s') = rx_bytes (eng_io s))"
proof -
  have a: "tunnel_io g = None \<longrightarrow>
      hev_socks5_tunnel_stats g txp txb rxp rxb =
        (map_option (\<lambda>_. 0) txp, map_option (\<lambda>_. 0) txb,
         map_option (\<lambda>_. 0) rxp, map_option (\<lambda>_. 0) rxb)"
    by (simp add: hev_socks5_tunnel_stats_def)
  have b: "\<forall>io. tunnel_io g = Some io \<longrightarrow>
      hev_socks5_tunnel_stats g txp txb rxp rxb =
        (map_option (\<lambda>_. tx_packets io) txp, map_option (\<lambda>_. tx_bytes io) txb,
         map_option (\<lambda>_. rx_packets io) rxp, map_option (\<lambda>_. rx_bytes io) rxb)"
    by (simp add: hev_socks5_tunnel_stats_def hev_tunnel_io_get_stats_def)
  have c: "tunnel_io (hev_socks5_tunnel_fini g) = None" "tunnel_io initial_tunnel = None"
    by (simp_all add: hev_socks5_tunnel_fini_def initial_tunnel_def)
  have d: "\<forall>ncpus tfd m g'. hev_socks5_tunnel_init True True ncpus tfd m g = (0, g') \<longrightarrow>
      hev_socks5_tunnel_stats g' txp txb rxp rxb =
        (map_option (\<lambda>_. 0) txp, map_option (\<lambda>_. 0) txb,
         map_option (\<lambda>_. 0) rxp, map_option (\<lambda>_. 0) rxb)"
    by (auto simp: hev_socks5_tunnel_stats_def hev_tunnel_io_get_stats_def
        hev_socks5_tunnel_init_def hev_tunnel_io_new_def hev_tunnel_io_set_read_callback_def
        Let_def)
  have e: "\<forall>steps_ok mem ncpus tfd m r g'.
      hev_socks5_tunnel_init steps_ok mem ncpus tfd m g = (r, g') \<longrightarrow> r \<noteq> 0 \<longrightarrow>
      tunnel_io g' = None"
    by (auto simp: hev_socks5_tunnel_init_def hev_socks5_tunnel_fini_def
        split: if_splits option.splits)
  have f: "\<forall>e sched g'. hev_socks5_tunnel_stop e sched g = Some g' \<longrightarrow>
      run g' = 0 \<and> (tunnel_io g' = None) = (tunnel_io g = None)"
    by (auto simp: hev_socks5_tunnel_stop_def Let_def split: option.splits)
  have h: "\<forall>s s'. stop_call s = Some s' \<or> stop_step s = Some s' \<longrightarrow>
      tx_packets (eng_io s') = tx_packets (eng_io s) \<and>
      tx_bytes (eng_io s') = tx_bytes (eng_io s) \<and>
      rx_packets (eng_io s') = rx_packets (eng_io s) \<and>
      rx_bytes (eng_io s') = rx_bytes (eng_io s)"
    by (auto simp: stop_call_def stop_step_def Let_def split: if_splits stop_pc.splits)
  from a b c d e f h show ?thesis
    by (intro conjI)
qed

theorem stats_without_engine_witness:
  "tunnel_io initial_tunnel = None \<and>
   hev_socks5_tunnel_stats initial_tunnel (Some 7) None (Some 8) (Some 9) =
     (Some 0, None, Some 0, Some 0) \<and>
   hev_socks5_tunnel_init True True 4 3 1500 initial_tunnel =
     (0, snd (hev_socks5_tunnel_init True True 4 3 1500 initial_tunnel)) \<and>
   hev_socks5_tunnel_stats (snd (hev_socks5_tunnel_init True True 4 3 1500 initial_tunnel))
      (Some 7) None (Some 8) (Some 9) = (Some 0, None, Some 0, Some 0) \<and>
   hev_socks5_tunnel_init True False 4 3 1500 initial_tunnel =
     (- 1, snd (hev_socks5_tunnel_init True False 4 3 1500 initial_tunnel)) \<and>
   tunnel_io (snd (hev_socks5_tunnel_init True False 4 3 1500 initial_tunnel)) = None \<and>
   hev_socks5_tunnel_stop \<lparr> tun_write = (\<lambda>p. 0), gather_mem = (\<lambda>_. True) \<rparr> [] initial_tunnel =
     Some initial_tunnel \<and>
   run initial_tunnel = 0"
proof -
  have n: "tunnel_io initial_tunnel = None"
    by (simp add: initial_tunnel_def)
  have i: "hev_socks5_tunnel_init True True 4 3 1500 initial_tunnel =
     (0, snd (hev_socks5_tunnel_init True True 4 3 1500 initial_tunnel))"
    by (simp add: hev_socks5_tunnel_init_def hev_tunnel_io_new_def)
  have j: "hev_socks5_tunnel_init True False 4 3 1500 initial_tunnel =
     (- 1, snd (hev_socks5_tunnel_init True False 4 3 1500 initial_tunnel))"
    by (simp add: hev_socks5_tunnel_init_def hev_tunnel_io_new_def)
  have k: "hev_socks5_tunnel_stop \<lparr> tun_write = (\<lambda>p. 0), gather_mem = (\<lambda>_. True) \<rparr> []
      initial_tunnel = Some initial_tunnel"
    by (simp add: hev_socks5_tunnel_stop_def initial_tunnel_def)
  have m1: "(- 1::int) \<noteq> 0" by simp
  note t = stats_without_engine [of initial_tunnel "Some 7" None "Some 8" "Some 9"]
  note t5 = t [THEN conjunct2, THEN conjunct2, THEN conjunct2, THEN conjunct2]
  from t [THEN conjunct1, rule_format, OF n]
    t5 [THEN conjunct1, rule_format, OF i]
    t5 [THEN conjunct2, THEN conjunct1, rule_format, OF j m1]
    t5 [THEN conjunct2, THEN conjunct2, THEN conjunct1, rule_format, OF k]
    n i j k
  show ?thesis by simp
qed

end
